theory Spec2Isabelle
  imports Main "HOL-Library.Stream"
begin

section \<open>Exceptions\<close>

text \<open>
  The Python exceptions that the modelled functions of \<^verbatim>\<open>lock.py\<close> and
  \<^verbatim>\<open>utils_comm.py\<close> raise or catch. A function that can raise returns
  \<open>exn + 'a\<close>, with \<open>Inl\<close> for the exception.
\<close>

datatype exn =
    ValueError
  | KeyError
  | TypeError
  | IndexError
  | AssertionError
  | ZeroDivisionError
  | EnvironmentError
  | OtherError string

section \<open>Python dictionaries as association lists\<close>

text \<open>
  A \<^verbatim>\<open>dict\<close> is an association list in insertion order. \<open>dict_set\<close> is
  \<^verbatim>\<open>d[k] = v\<close>: an existing key keeps its position, a new key goes last.
  \<open>dict_update\<close> is \<^verbatim>\<open>d.update(other)\<close>.
\<close>

fun dict_set :: "('k \<times> 'v) list \<Rightarrow> 'k \<Rightarrow> 'v \<Rightarrow> ('k \<times> 'v) list" where
  "dict_set [] k v = [(k, v)]"
| "dict_set ((k', v') # d) k v = (if k' = k then (k, v) # d else (k', v') # dict_set d k v)"

definition dict_update :: "('k \<times> 'v) list \<Rightarrow> ('k \<times> 'v) list \<Rightarrow> ('k \<times> 'v) list" where
  "dict_update d other = foldl (\<lambda>acc (k, v). dict_set acc k v) d other"

definition dict_of_items :: "('k \<times> 'v) list \<Rightarrow> ('k \<times> 'v) list" where
  "dict_of_items items = dict_update [] items"

section \<open>scatter_to_workers\<close>

text \<open>
  \<^verbatim>\<open>_round_robin_counter = [0]\<close> is process-wide state. The state of the model holds
  the counter (it starts at 0 and only grows by \<^verbatim>\<open>len(data)\<close>, so it is a \<open>nat\<close>)
  and the log of the \<^verbatim>\<open>update_data\<close> requests sent to workers, each with its address and
  payload.
\<close>

record ('a, 'n, 'v) scatter_state =
  round_robin_counter :: nat
  sent :: "('a \<times> ('n \<times> 'v) list) list"

text \<open>\<^verbatim>\<open>toolz.groupby(key, seq)\<close>: \<^verbatim>\<open>d[key(item)].append(item)\<close> for each item.\<close>

definition dict_append :: "('g \<times> 'x list) list \<Rightarrow> 'g \<Rightarrow> 'x \<Rightarrow> ('g \<times> 'x list) list" where
  "dict_append d g x = dict_set d g ((case map_of d g of None \<Rightarrow> [] | Some xs \<Rightarrow> xs) @ [x])"

definition groupby :: "('x \<Rightarrow> 'g) \<Rightarrow> 'x list \<Rightarrow> ('g \<times> 'x list) list" where
  "groupby key seq = foldl (\<lambda>d x. dict_append d (key x) x) [] seq"

text \<open>\<^verbatim>\<open>list(concat([w] * nc for w, nc in nthreads.items()))\<close>; \<^verbatim>\<open>[w] * nc\<close> is empty for \<^verbatim>\<open>nc <= 0\<close>.\<close>

definition expand_workers :: "('a \<times> int) list \<Rightarrow> 'a list" where
  "expand_workers nthreads = concat (map (\<lambda>(w, nc). replicate (nat nc) w) nthreads)"

text \<open>
  \<^verbatim>\<open>list(zip(worker_iter, names, data))\<close> with
  \<^verbatim>\<open>worker_iter = drop(counter % len(workers), cycle(workers))\<close>: the infinite iterator is a
  stream, of which \<open>zip\<close> consumes as many items as there are names.
\<close>

definition assign_workers :: "nat \<Rightarrow> 'a list \<Rightarrow> 'n list \<Rightarrow> 'v list \<Rightarrow> ('a \<times> 'n \<times> 'v) list" where
  "assign_workers c workers names vals =
     (let worker_iter = sdrop (c mod length workers) (cycle workers)
      in zip (stake (length names) worker_iter) (zip names vals))"

text \<open>
  \<^verbatim>\<open>await All([rpcs[address].update_data(...) for address, v in d.items()])\<close>: every request
  is issued; the first exception, if any, is raised, else the responses are returned.
\<close>

fun collect_responses :: "(exn + 'r) list \<Rightarrow> exn + 'r list" where
  "collect_responses [] = Inr []"
| "collect_responses (Inl e # rs) = Inl e"
| "collect_responses (Inr r # rs) =
     (case collect_responses rs of Inl e \<Rightarrow> Inl e | Inr out \<Rightarrow> Inr (r # out))"

text \<open>
  The remote operation \<^verbatim>\<open>update_data\<close> of a worker is a parameter: given the address and
  the payload it returns the \<^verbatim>\<open>nbytes\<close> mapping of the response or raises.
  The result is \<^verbatim>\<open>(names, who_has, nbytes)\<close>.
\<close>

definition scatter_to_workers ::
  "('a \<Rightarrow> ('n \<times> 'v) list \<Rightarrow> exn + ('n \<times> nat) list) \<Rightarrow> ('a \<times> int) list \<Rightarrow> ('n \<times> 'v) list \<Rightarrow>
   ('a, 'n, 'v) scatter_state \<Rightarrow>
   (exn + ('n list \<times> ('n \<times> 'a list) list \<times> ('n \<times> nat) list)) \<times> ('a, 'n, 'v) scatter_state" where
  "scatter_to_workers update_data nthreads data st =
     (let workers = expand_workers nthreads in
      if data = [] then (Inl ValueError, st)
      else
        let names = map fst data; vals = map snd data in
        if length workers = 0 then (Inl ZeroDivisionError, st)
        else
          let L = assign_workers (round_robin_counter st) workers names vals;
              st1 = st\<lparr>round_robin_counter := round_robin_counter st + length vals\<rparr>;
              d = map (\<lambda>(worker, v). (worker, dict_of_items (map snd v))) (groupby fst L);
              st2 = st1\<lparr>sent := sent st1 @ d\<rparr>
          in case collect_responses (map (\<lambda>(address, v). update_data address v) d) of
               Inl e \<Rightarrow> (Inl e, st2)
             | Inr out \<Rightarrow>
                 let nbytes = foldl dict_update [] out;
                     who_has = map (\<lambda>(k, v). (k, map fst v)) (groupby (\<lambda>(w, k, x). k) L)
                 in (Inr (names, who_has, nbytes), st2))"

section \<open>gather_from_workers\<close>

text \<open>
  \<^verbatim>\<open>who_has\<close> is a dict from keys to collections of addresses, a list of items here.
  The sets \<^verbatim>\<open>bad_addresses\<close>, \<^verbatim>\<open>missing_workers\<close> and \<^verbatim>\<open>all_bad_keys\<close> are lists without
  repetition, \<^verbatim>\<open>results\<close> is a dict. \<open>iteration\<close> counts the passes of the \<^verbatim>\<open>while\<close> loop;
  it is not a variable of the source, and only tells the two parameters below which pass
  they are asked in.

  The environment is two parameters. \<open>rnd i key\<close> is the random number that
  \<^verbatim>\<open>random.choice\<close> draws for \<open>key\<close> in pass \<open>i\<close>. \<open>fetch i address keys\<close> is what
  \<^verbatim>\<open>get_data_from_worker\<close> (of \<^verbatim>\<open>distributed.worker\<close>) does in pass \<open>i\<close> when asked for \<open>keys\<close> at
  \<open>address\<close>: it returns the \<^verbatim>\<open>"data"\<close> mapping of the response, or raises.
\<close>

record ('k, 'a, 'v) gather_state =
  bad_addresses :: "'a list"
  missing_workers :: "'a list"
  results :: "('k \<times> 'v) list"
  all_bad_keys :: "'k list"
  iteration :: nat

text \<open>\<^verbatim>\<open>random.choice(seq)\<close>: \<^verbatim>\<open>IndexError\<close> on an empty sequence.\<close>

definition random_choice :: "nat \<Rightarrow> 'a list \<Rightarrow> exn + 'a" where
  "random_choice r seq = (if seq = [] then Inl IndexError else Inr (seq ! (r mod length seq)))"

text \<open>\<^verbatim>\<open>list(addresses - bad_addresses)\<close>.\<close>

definition candidates :: "'a list \<Rightarrow> 'a list \<Rightarrow> 'a list" where
  "candidates addresses bad = filter (\<lambda>a. a \<notin> set bad) addresses"

text \<open>
  The body of \<^verbatim>\<open>for key, addresses in who_has.items()\<close>, on the triple of \<^verbatim>\<open>d\<close>, \<^verbatim>\<open>rev\<close> (here \<open>rev'\<close>)
  and \<^verbatim>\<open>bad_keys\<close>.
\<close>

definition choose_address ::
  "('k \<Rightarrow> nat) \<Rightarrow> 'a list \<Rightarrow> ('k \<times> 'v) list \<Rightarrow>
   ('a \<times> 'k list) list \<times> ('k \<times> 'a) list \<times> 'k list \<Rightarrow> 'k \<times> 'a list \<Rightarrow>
   ('a \<times> 'k list) list \<times> ('k \<times> 'a) list \<times> 'k list" where
  "choose_address r bad res acc item =
     (case acc of (d, rev', bad_keys) \<Rightarrow>
      case item of (key, addresses) \<Rightarrow>
        if key \<in> fst ` set res then (d, rev', bad_keys)
        else
          (case random_choice (r key) (candidates addresses bad) of
             Inr addr \<Rightarrow> (dict_append d addr key, dict_set rev' key addr, bad_keys)
           | Inl e \<Rightarrow> (d, rev', List.insert key bad_keys)))"

text \<open>
  \<^verbatim>\<open>for worker, c in coroutines.items()\<close>: an \<^verbatim>\<open>EnvironmentError\<close> adds the worker to
  \<^verbatim>\<open>missing_workers\<close>, any other exception leaves the function, a response updates
  \<^verbatim>\<open>response\<close>.
\<close>

fun await_responses ::
  "('a \<Rightarrow> 'k list \<Rightarrow> exn + ('k \<times> 'v) list) \<Rightarrow> ('a \<times> 'k list) list \<Rightarrow> 'a list \<Rightarrow> ('k \<times> 'v) list \<Rightarrow>
   exn + ('a list \<times> ('k \<times> 'v) list)" where
  "await_responses f [] missing response = Inr (missing, response)"
| "await_responses f ((worker, keys) # cs) missing response =
     (case f worker keys of
        Inl e \<Rightarrow>
          if e = EnvironmentError then await_responses f cs (List.insert worker missing) response
          else Inl e
      | Inr data \<Rightarrow> await_responses f cs missing (dict_update response data))"

text \<open>One pass of the \<^verbatim>\<open>while\<close> loop.\<close>

definition gather_pass ::
  "(nat \<Rightarrow> 'k \<Rightarrow> nat) \<Rightarrow> (nat \<Rightarrow> 'a \<Rightarrow> 'k list \<Rightarrow> exn + ('k \<times> 'v) list) \<Rightarrow> ('k \<times> 'a list) list \<Rightarrow>
   ('k, 'a, 'v) gather_state \<Rightarrow> exn + ('k, 'a, 'v) gather_state" where
  "gather_pass rnd fetch who_has s =
     (case foldl (choose_address (rnd (iteration s)) (bad_addresses s) (results s)) ([], [], []) who_has of
        (d, rev', bad_keys) \<Rightarrow>
          let all_bad = (if bad_keys \<noteq> [] then List.union bad_keys (all_bad_keys s) else all_bad_keys s)
          in (case await_responses (fetch (iteration s)) d (missing_workers s) [] of
                Inl e \<Rightarrow> Inl e
              | Inr (missing, response) \<Rightarrow>
                  Inr \<lparr>bad_addresses =
                         List.union (map snd (filter (\<lambda>(k, v). k \<notin> fst ` set response) rev'))
                           (bad_addresses s),
                       missing_workers = missing,
                       results = dict_update (results s) response,
                       all_bad_keys = all_bad,
                       iteration = Suc (iteration s)\<rparr>))"

text \<open>
  \<^verbatim>\<open>while len(results) + len(all_bad_keys) < len(who_has)\<close>. Nothing in the source bounds
  the number of passes, so the loop is a partial function: \<open>None\<close> is a loop that never ends.
\<close>

partial_function (option) gather_loop ::
  "(nat \<Rightarrow> 'k \<Rightarrow> nat) \<Rightarrow> (nat \<Rightarrow> 'a \<Rightarrow> 'k list \<Rightarrow> exn + ('k \<times> 'v) list) \<Rightarrow> ('k \<times> 'a list) list \<Rightarrow>
   ('k, 'a, 'v) gather_state \<Rightarrow> (exn + ('k, 'a, 'v) gather_state) option" where
  "gather_loop rnd fetch who_has s =
     (if length (results s) + length (all_bad_keys s) < length who_has then
        (case gather_pass rnd fetch who_has s of
           Inl e \<Rightarrow> Some (Inl e)
         | Inr s' \<Rightarrow> gather_loop rnd fetch who_has s')
      else Some (Inr s))"

declare gather_loop.simps [code]

text \<open>\<^verbatim>\<open>{k: list(original_who_has[k]) for k in all_bad_keys}\<close>.\<close>

fun original_candidates :: "('k \<times> 'a list) list \<Rightarrow> 'k list \<Rightarrow> exn + ('k \<times> 'a list) list" where
  "original_candidates original [] = Inr []"
| "original_candidates original (k # ks) =
     (case map_of original k of
        None \<Rightarrow> Inl KeyError
      | Some addresses \<Rightarrow>
          (case original_candidates original ks of
             Inl e \<Rightarrow> Inl e
           | Inr bad_keys \<Rightarrow> Inr ((k, addresses) # bad_keys)))"

text \<open>
  The function: the result is \<^verbatim>\<open>(results, bad_keys, list(missing_workers))\<close>.
  \<open>copy_who_has\<close> is \<^verbatim>\<open>{k: set(v) for k, v in who_has.items()}\<close>, which drops the repetitions
  of every collection.
\<close>

definition copy_who_has :: "('k \<times> 'a list) list \<Rightarrow> ('k \<times> 'a list) list" where
  "copy_who_has who_has = map (\<lambda>(k, v). (k, remdups v)) who_has"

definition gather_init :: "('k, 'a, 'v) gather_state" where
  "gather_init = \<lparr>bad_addresses = [], missing_workers = [], results = [], all_bad_keys = [],
                  iteration = 0\<rparr>"

definition gather_from_workers ::
  "(nat \<Rightarrow> 'k \<Rightarrow> nat) \<Rightarrow> (nat \<Rightarrow> 'a \<Rightarrow> 'k list \<Rightarrow> exn + ('k \<times> 'v) list) \<Rightarrow> ('k \<times> 'a list) list \<Rightarrow>
   (exn + (('k \<times> 'v) list \<times> ('k \<times> 'a list) list \<times> 'a list)) option" where
  "gather_from_workers rnd fetch original_who_has =
     (let who_has = copy_who_has original_who_has in
      case gather_loop rnd fetch who_has gather_init of
        None \<Rightarrow> None
      | Some (Inl e) \<Rightarrow> Some (Inl e)
      | Some (Inr s) \<Rightarrow>
          (case original_candidates original_who_has (all_bad_keys s) of
             Inl e \<Rightarrow> Some (Inl e)
           | Inr bad_keys \<Rightarrow> Some (Inr (results s, bad_keys, missing_workers s))))"

text \<open>
  What the claims assume of a fetch: it raises nothing but \<^verbatim>\<open>EnvironmentError\<close>
  (\<open>fetch_connectivity_only\<close>), and a response holds only keys that were asked for
  (\<open>fetch_requested_only\<close>), as the \<^verbatim>\<open>get_data\<close> handler of a worker answers.
\<close>

definition fetch_connectivity_only :: "(nat \<Rightarrow> 'a \<Rightarrow> 'k list \<Rightarrow> exn + ('k \<times> 'v) list) \<Rightarrow> bool" where
  "fetch_connectivity_only fetch = (\<forall>i a ks e. fetch i a ks = Inl e \<longrightarrow> e = EnvironmentError)"

definition fetch_requested_only :: "(nat \<Rightarrow> 'a \<Rightarrow> 'k list \<Rightarrow> exn + ('k \<times> 'v) list) \<Rightarrow> bool" where
  "fetch_requested_only fetch = (\<forall>i a ks data. fetch i a ks = Inr data \<longrightarrow> fst ` set data \<subseteq> set ks)"

section \<open>Distributed lock: the scheduler extension\<close>

text \<open>
  A lock name is a string, a tuple or a list of strings; \<^verbatim>\<open>acquire\<close> and \<^verbatim>\<open>release\<close> turn a
  list into a tuple. A requester id is any Python value the caller sends; the parameter
  defaults to \<^verbatim>\<open>None\<close>, which is \<open>None\<close> here, and \<^verbatim>\<open>Lock\<close> sends a uuid string.
  A timeout is \<^verbatim>\<open>None\<close> or a number of seconds.
\<close>

datatype lock_name = NameStr string | NameTuple "string list" | NameList "string list"

fun tuple_of_list :: "lock_name \<Rightarrow> lock_name" where
  "tuple_of_list (NameList xs) = NameTuple xs"
| "tuple_of_list n = n"

type_synonym ident = "string option"

type_synonym event = nat

text \<open>
  The state of the scheduler process, as far as the lock extension goes:
  \<^item> \<open>events\<close> is \<^verbatim>\<open>self.events\<close>, a \<^verbatim>\<open>defaultdict(deque)\<close> from names to queues of
    \<^verbatim>\<open>tornado.locks.Event\<close> objects (an event is its identity, a number);
  \<^item> \<open>ids\<close> is \<^verbatim>\<open>self.ids\<close>, the holder of every held name;
  \<^item> \<open>waiters\<close> are the \<^verbatim>\<open>acquire\<close> coroutines suspended at \<^verbatim>\<open>await future\<close>, each
    found by the event it waits for, with its local variables;
  \<^item> \<open>is_set\<close> lists the events whose flag is set;
  \<^item> \<open>callbacks\<close> are the \<^verbatim>\<open>event.set\<close> calls that \<^verbatim>\<open>release\<close> handed to
    \<^verbatim>\<open>loop.add_callback\<close> and that the loop has not run yet;
  \<^item> \<open>next_event\<close> numbers the next \<^verbatim>\<open>Event()\<close> object.
  The event loop is single-threaded: the code between two \<^verbatim>\<open>await\<close>s runs atomically, so
  each function below is one such segment.
\<close>

record waiter =
  w_name :: lock_name
  w_id :: ident
  w_timeout :: "nat option"

record sched =
  events :: "lock_name \<rightharpoonup> event list"
  ids :: "lock_name \<rightharpoonup> ident"
  waiters :: "event \<rightharpoonup> waiter"
  is_set :: "event list"
  callbacks :: "event list"
  next_event :: nat

definition init_sched :: sched where
  "init_sched = \<lparr>events = Map.empty, ids = Map.empty, waiters = Map.empty, is_set = [],
                 callbacks = [], next_event = 0\<rparr>"

text \<open>What a segment of \<^verbatim>\<open>acquire\<close> ends with: a return or raise, or a suspension on an event.\<close>

datatype outcome = Returned "exn + bool" | Suspended event

text \<open>\<^verbatim>\<open>self.events[name]\<close> on the \<^verbatim>\<open>defaultdict\<close>: a missing name gets an empty queue.\<close>

definition events_get :: "sched \<Rightarrow> lock_name \<Rightarrow> event list \<times> sched" where
  "events_get s name =
     (case events s name of
        None \<Rightarrow> ([], s\<lparr>events := (events s)(name \<mapsto> [])\<rparr>)
      | Some q \<Rightarrow> (q, s))"

text \<open>
  The end of \<^verbatim>\<open>acquire\<close>:
  \<^verbatim>\<open>if result: assert name not in self.ids; self.ids[name] = id\<close> and \<^verbatim>\<open>return result\<close>.
\<close>

definition acquire_finish :: "sched \<Rightarrow> lock_name \<Rightarrow> ident \<Rightarrow> bool \<Rightarrow> outcome \<times> sched" where
  "acquire_finish s name ident result =
     (if result then
        (if name \<in> dom (ids s) then (Returned (Inl AssertionError), s)
         else (Returned (Inr True), s\<lparr>ids := (ids s)(name \<mapsto> ident)\<rparr>))
      else (Returned (Inr False), s))"

text \<open>
  The head of the loop, \<^verbatim>\<open>while name in self.ids\<close>: either a new event is appended to the
  queue of the name and the coroutine suspends on it, or the loop ends with
  \<^verbatim>\<open>result = True\<close>.
\<close>

definition acquire_loop :: "sched \<Rightarrow> lock_name \<Rightarrow> ident \<Rightarrow> nat option \<Rightarrow> outcome \<times> sched" where
  "acquire_loop s name ident timeout =
     (if name \<in> dom (ids s) then
        (let event = next_event s;
             (q, s1) = events_get s name;
             s2 = s1\<lparr>events := (events s1)(name \<mapsto> q @ [event]),
                     waiters := (waiters s1)(event \<mapsto> \<lparr>w_name = name, w_id = ident, w_timeout = timeout\<rparr>),
                     next_event := Suc event\<rparr>
         in (Suspended event, s2))
      else acquire_finish s name ident True)"

text \<open>
  A call of \<^verbatim>\<open>acquire\<close> up to its first suspension. The first test,
  \<^verbatim>\<open>if name not in self.ids: result = True\<close>, and the first test of the loop are the same
  test with nothing in between.
\<close>

definition acquire :: "sched \<Rightarrow> lock_name \<Rightarrow> ident \<Rightarrow> nat option \<Rightarrow> outcome \<times> sched" where
  "acquire s name ident timeout = acquire_loop s (tuple_of_list name) ident timeout"

text \<open>
  The \<^verbatim>\<open>finally\<close> block: \<^verbatim>\<open>event2 = self.events[name].popleft(); assert event is event2\<close>.
  It pops the head of the queue, whichever event that is.
\<close>

definition popleft_assert :: "sched \<Rightarrow> lock_name \<Rightarrow> event \<Rightarrow> exn option \<times> sched" where
  "popleft_assert s name event =
     (case events_get s name of
        ([], s1) \<Rightarrow> (Some IndexError, s1)
      | (event2 # q, s1) \<Rightarrow>
          (if event = event2 then None else Some AssertionError,
           s1\<lparr>events := (events s1)(name \<mapsto> q)\<rparr>))"

text \<open>
  The waiter on \<open>event\<close> resumes because the event was set: \<^verbatim>\<open>result = True\<close>, the
  \<^verbatim>\<open>finally\<close> block, then the head of the loop again. \<open>None\<close> when no coroutine waits on
  the event or the event is not set.
\<close>

definition acquire_wake :: "sched \<Rightarrow> event \<Rightarrow> (outcome \<times> sched) option" where
  "acquire_wake s event =
     (case waiters s event of
        None \<Rightarrow> None
      | Some w \<Rightarrow>
          if event \<notin> set (is_set s) then None
          else
            let s1 = s\<lparr>waiters := (waiters s)(event := None)\<rparr> in
            (case popleft_assert s1 (w_name w) event of
               (Some e, s2) \<Rightarrow> Some (Returned (Inl e), s2)
             | (None, s2) \<Rightarrow> Some (acquire_loop s2 (w_name w) (w_id w) (w_timeout w))))"

text \<open>
  The timeout of the waiter on \<open>event\<close> elapses before the event is set:
  \<^verbatim>\<open>except gen.TimeoutError: result = False; break\<close>, the \<^verbatim>\<open>finally\<close> block, then the end
  of \<^verbatim>\<open>acquire\<close>. \<open>None\<close> when no coroutine waits on the event, it waits without a
  timeout, or the event is set.
\<close>

definition acquire_timeout :: "sched \<Rightarrow> event \<Rightarrow> (outcome \<times> sched) option" where
  "acquire_timeout s event =
     (case waiters s event of
        None \<Rightarrow> None
      | Some w \<Rightarrow>
          if w_timeout w = None \<or> event \<in> set (is_set s) then None
          else
            let s1 = s\<lparr>waiters := (waiters s)(event := None)\<rparr> in
            (case popleft_assert s1 (w_name w) event of
               (Some e, s2) \<Rightarrow> Some (Returned (Inl e), s2)
             | (None, s2) \<Rightarrow> Some (acquire_finish s2 (w_name w) (w_id w) False)))"

text \<open>
  \<^verbatim>\<open>release\<close>. \<^verbatim>\<open>self.ids.get(name)\<close> is \<^verbatim>\<open>None\<close> for a name that is not held;
  \<^verbatim>\<open>del self.ids[name]\<close> raises \<^verbatim>\<open>KeyError\<close> for such a name.
\<close>

definition release :: "sched \<Rightarrow> lock_name \<Rightarrow> ident \<Rightarrow> (exn + unit) \<times> sched" where
  "release s name0 ident =
     (let name = tuple_of_list name0 in
      if (case ids s name of None \<Rightarrow> None | Some holder \<Rightarrow> holder) \<noteq> ident
      then (Inl ValueError, s)
      else if name \<notin> dom (ids s) then (Inl KeyError, s)
      else
        let s1 = s\<lparr>ids := (ids s)(name := None)\<rparr>;
            (q, s2) = events_get s1 name
        in case q of
             event # _ \<Rightarrow> (Inr (), s2\<lparr>callbacks := callbacks s2 @ [event]\<rparr>)
           | [] \<Rightarrow> (Inr (), s2\<lparr>events := (events s2)(name := None)\<rparr>))"

text \<open>The loop runs the oldest pending callback, \<^verbatim>\<open>event.set\<close>.\<close>

definition run_callback :: "sched \<Rightarrow> sched option" where
  "run_callback s =
     (case callbacks s of
        [] \<Rightarrow> None
      | event # cbs \<Rightarrow> Some (s\<lparr>callbacks := cbs, is_set := List.insert event (is_set s)\<rparr>))"

section \<open>Distributed lock: the client handle\<close>

text \<open>
  A \<^verbatim>\<open>Lock\<close> handle: its name, its id (a uuid string) and \<^verbatim>\<open>_locked\<close>.
  \<^verbatim>\<open>self.client.sync(self.client.scheduler.lock_acquire, ...)\<close> is the parameter \<open>sync\<close>:
  what the remote call returns or raises, or \<open>None\<close> when it never returns (a wait without
  timeout that nobody ends).
\<close>

record lock =
  lock_name :: lock_name
  lock_id :: string
  locked_flag :: bool

definition Lock_acquire ::
  "(lock_name \<Rightarrow> ident \<Rightarrow> nat option \<Rightarrow> (exn + bool) option) \<Rightarrow> lock \<Rightarrow> bool \<Rightarrow> nat option \<Rightarrow>
   ((exn + bool) \<times> lock) option" where
  "Lock_acquire sync lk blocking timeout =
     (if \<not> blocking \<and> timeout \<noteq> None then Some (Inl ValueError, lk)
      else
        let timeout' = (if \<not> blocking then Some 0 else timeout) in
        case sync (lock_name lk) (Some (lock_id lk)) timeout' of
          None \<Rightarrow> None
        | Some (Inl e) \<Rightarrow> Some (Inl e, lk)
        | Some (Inr result) \<Rightarrow> Some (Inr result, lk\<lparr>locked_flag := True\<rparr>))"

definition locked :: "lock \<Rightarrow> bool" where
  "locked lk = locked_flag lk"

text \<open>
  \<^verbatim>\<open>Lock.release\<close>, with \<open>sync\<close> the remote call of \<^verbatim>\<open>lock_release\<close>.
\<close>

definition Lock_release ::
  "(lock_name \<Rightarrow> ident \<Rightarrow> exn + unit) \<Rightarrow> lock \<Rightarrow> (exn + unit) \<times> lock" where
  "Lock_release sync lk =
     (if \<not> locked lk then (Inl ValueError, lk)
      else case sync (lock_name lk) (Some (lock_id lk)) of
             Inl e \<Rightarrow> (Inl e, lk)
           | Inr r \<Rightarrow> (Inr r, lk\<lparr>locked_flag := False\<rparr>))"

text \<open>
  A remote \<^verbatim>\<open>lock_acquire\<close> whose wait, if any, ends by its timeout and by nothing else:
  the call of \<^verbatim>\<open>acquire\<close> on the scheduler and, when it suspends, the timeout of its
  event. \<open>None\<close> when the wait has no timeout.
\<close>

definition lock_acquire_timing_out ::
  "sched \<Rightarrow> lock_name \<Rightarrow> ident \<Rightarrow> nat option \<Rightarrow> ((exn + bool) \<times> sched) option" where
  "lock_acquire_timing_out s name ident timeout =
     (case acquire s name ident timeout of
        (Returned r, s1) \<Rightarrow> Some (r, s1)
      | (Suspended event, s1) \<Rightarrow>
          (case acquire_timeout s1 event of
             Some (Returned r, s2) \<Rightarrow> Some (r, s2)
           | _ \<Rightarrow> None))"

text \<open>
  Two scheduler states the claims are tried on. In \<open>held_state\<close> the name \<^verbatim>\<open>x\<close> is held by
  \<^verbatim>\<open>h\<close> and nobody waits. In \<open>contended_state\<close>, besides, \<^verbatim>\<open>a\<close> waits for \<^verbatim>\<open>x\<close> without
  timeout (on event 0) and, behind it, \<^verbatim>\<open>b\<close> waits with a timeout of one second (on
  event 1). Both are reached from the initial state by calls of \<^verbatim>\<open>acquire\<close>.
\<close>

definition held_state :: sched where
  "held_state = snd (acquire init_sched (NameStr ''x'') (Some ''h'') None)"

definition contended_state :: sched where
  "contended_state =
     snd (acquire (snd (acquire held_state (NameStr ''x'') (Some ''a'') None))
            (NameStr ''x'') (Some ''b'') (Some 1))"

section \<open>Python values\<close>

text \<open>
  The values that \<^verbatim>\<open>unpack_remotedata\<close> and \<^verbatim>\<open>pack_data\<close> walk: the scalars \<^verbatim>\<open>None\<close>,
  \<^verbatim>\<open>bool\<close>, \<^verbatim>\<open>int\<close> and \<^verbatim>\<open>str\<close>, the four \<^verbatim>\<open>collection_types\<close>, \<^verbatim>\<open>dict\<close>, and
  \<^verbatim>\<open>WrappedKey\<close> objects. A set, a frozenset and a dict are lists in iteration order.
  A \<^verbatim>\<open>WrappedKey\<close> object is its identity (the number of the object) and its \<^verbatim>\<open>key\<close>
  attribute, which \<^verbatim>\<open>__init__\<close> sets and nothing changes.
  Floats are left out (\<^verbatim>\<open>nan != nan\<close>), and so are the values of
  \<^verbatim>\<open>dask.optimization.SubgraphCallable\<close>, a class of another library: on every value of
  this type the test \<^verbatim>\<open>type(o[0]) is SubgraphCallable\<close> of \<^verbatim>\<open>unpack_remotedata\<close> is false.
\<close>

datatype pyval =
    PNone
  | PBool bool
  | PInt int
  | PStr string
  | PTuple "pyval list"
  | PList "pyval list"
  | PSet "pyval list"
  | PFrozenset "pyval list"
  | PDict "(pyval \<times> pyval) list"
  | PWrappedKey nat pyval

text \<open>
  \<^verbatim>\<open>WrappedKey.__init__\<close>: \<open>WrappedKey_init n key\<close> is the object made when \<open>n\<close> objects
  exist, and the new number of objects.
\<close>

definition WrappedKey_init :: "nat \<Rightarrow> pyval \<Rightarrow> pyval \<times> nat" where
  "WrappedKey_init n key = (PWrappedKey n key, Suc n)"

fun WrappedKey_key :: "pyval \<Rightarrow> pyval option" where
  "WrappedKey_key (PWrappedKey i k) = Some k"
| "WrappedKey_key _ = None"

text \<open>
  \<^verbatim>\<open>hash(o)\<close> raises \<^verbatim>\<open>TypeError\<close> for a list, a set, a dict and a tuple with such an item.
  \<^verbatim>\<open>WrappedKey\<close> defines no \<^verbatim>\<open>__hash__\<close>: it has the hash of \<^verbatim>\<open>object\<close>.
\<close>

fun hashable :: "pyval \<Rightarrow> bool" where
  "hashable (PTuple xs) = list_all hashable xs"
| "hashable (PList xs) = False"
| "hashable (PSet xs) = False"
| "hashable (PDict kvs) = False"
| "hashable v = True"

text \<open>
  \<^verbatim>\<open>a == b\<close>. \<^verbatim>\<open>True == 1\<close>; tuples and lists compare item by item; sets and frozensets
  compare as sets; dicts are equal when every item of one has an equal item in the other. \<^verbatim>\<open>WrappedKey\<close> defines no
  \<^verbatim>\<open>__eq__\<close>: two such objects are equal when they are the same object.
\<close>

fun py_eq :: "pyval \<Rightarrow> pyval \<Rightarrow> bool" where
  "py_eq PNone y = (y = PNone)"
| "py_eq (PBool a) y =
     (case y of PBool b \<Rightarrow> a = b | PInt j \<Rightarrow> (if a then 1 else 0) = j | _ \<Rightarrow> False)"
| "py_eq (PInt i) y =
     (case y of PBool b \<Rightarrow> i = (if b then 1 else 0) | PInt j \<Rightarrow> i = j | _ \<Rightarrow> False)"
| "py_eq (PStr s) y = (y = PStr s)"
| "py_eq (PTuple xs) y = (case y of PTuple ys \<Rightarrow> list_all2 py_eq xs ys | _ \<Rightarrow> False)"
| "py_eq (PList xs) y = (case y of PList ys \<Rightarrow> list_all2 py_eq xs ys | _ \<Rightarrow> False)"
| "py_eq (PSet xs) y =
     (case y of
        PSet ys \<Rightarrow>
          ((\<forall>x \<in> set xs. \<exists>y \<in> set ys. py_eq x y) \<and> (\<forall>y \<in> set ys. \<exists>x \<in> set xs. py_eq x y))
      | PFrozenset ys \<Rightarrow>
          ((\<forall>x \<in> set xs. \<exists>y \<in> set ys. py_eq x y) \<and> (\<forall>y \<in> set ys. \<exists>x \<in> set xs. py_eq x y))
      | _ \<Rightarrow> False)"
| "py_eq (PFrozenset xs) y =
     (case y of
        PSet ys \<Rightarrow>
          ((\<forall>x \<in> set xs. \<exists>y \<in> set ys. py_eq x y) \<and> (\<forall>y \<in> set ys. \<exists>x \<in> set xs. py_eq x y))
      | PFrozenset ys \<Rightarrow>
          ((\<forall>x \<in> set xs. \<exists>y \<in> set ys. py_eq x y) \<and> (\<forall>y \<in> set ys. \<exists>x \<in> set xs. py_eq x y))
      | _ \<Rightarrow> False)"
| "py_eq (PDict xs) y =
     (case y of
        PDict ys \<Rightarrow>
          (\<forall>kv \<in> set xs. \<exists>kv' \<in> set ys. py_eq (fst kv) (fst kv') \<and> py_eq (snd kv) (snd kv')) \<and>
          (\<forall>kv' \<in> set ys. \<exists>kv \<in> set xs. py_eq (fst kv) (fst kv') \<and> py_eq (snd kv) (snd kv'))
      | _ \<Rightarrow> False)"
| "py_eq (PWrappedKey i k) y = (case y of PWrappedKey j k' \<Rightarrow> i = j | _ \<Rightarrow> False)"

text \<open>
  \<^verbatim>\<open>s.add(x)\<close> on a set, \<^verbatim>\<open>set(xs)\<close> and \<^verbatim>\<open>frozenset(xs)\<close> of a list (\<^verbatim>\<open>TypeError\<close> when an
  item cannot be hashed), and \<^verbatim>\<open>o in d\<close> with \<^verbatim>\<open>d[o]\<close> on a dict whose keys are Python
  values.
\<close>

definition py_set_add :: "pyval list \<Rightarrow> pyval \<Rightarrow> pyval list" where
  "py_set_add s x = (if \<exists>y \<in> set s. py_eq y x then s else s @ [x])"

definition py_set_of_list :: "pyval list \<Rightarrow> exn + pyval list" where
  "py_set_of_list xs = (if list_all hashable xs then Inr (foldl py_set_add [] xs) else Inl TypeError)"

fun py_dict_get :: "(pyval \<times> pyval) list \<Rightarrow> pyval \<Rightarrow> pyval option" where
  "py_dict_get [] o' = None"
| "py_dict_get ((k, v) # d) o' = (if py_eq k o' then Some v else py_dict_get d o')"

section \<open>unpack_remotedata\<close>

text \<open>
  The recursive calls share the set \<^verbatim>\<open>myset\<close>, which they only add to; the function
  returns the rebuilt value and the set. \<^verbatim>\<open>tokey\<close>, of \<^verbatim>\<open>distributed.utils\<close>, is a
  parameter. \<open>unpack_items\<close> is the comprehension over the items of a collection and
  \<open>unpack_values\<close> the one over the values of a dict.
\<close>

fun unpack_remotedata_myset ::
    "(pyval \<Rightarrow> pyval) \<Rightarrow> bool \<Rightarrow> pyval \<Rightarrow> pyval list \<Rightarrow> exn + (pyval \<times> pyval list)"
  and unpack_items ::
    "(pyval \<Rightarrow> pyval) \<Rightarrow> bool \<Rightarrow> pyval list \<Rightarrow> pyval list \<Rightarrow> exn + (pyval list \<times> pyval list)"
  and unpack_values ::
    "(pyval \<Rightarrow> pyval) \<Rightarrow> bool \<Rightarrow> (pyval \<times> pyval) list \<Rightarrow> pyval list \<Rightarrow> exn + (pyval list \<times> pyval list)"
where
  "unpack_remotedata_myset tokey byte_keys (PTuple xs) myset =
     (if xs = [] then Inr (PTuple xs, myset)
      else case unpack_items tokey byte_keys xs myset of
             Inl e \<Rightarrow> Inl e
           | Inr (outs, myset') \<Rightarrow> Inr (PTuple outs, myset'))"
| "unpack_remotedata_myset tokey byte_keys (PList xs) myset =
     (if xs = [] then Inr (PList xs, myset)
      else case unpack_items tokey byte_keys xs myset of
             Inl e \<Rightarrow> Inl e
           | Inr (outs, myset') \<Rightarrow> Inr (PList outs, myset'))"
| "unpack_remotedata_myset tokey byte_keys (PSet xs) myset =
     (if xs = [] then Inr (PSet xs, myset)
      else case unpack_items tokey byte_keys xs myset of
             Inl e \<Rightarrow> Inl e
           | Inr (outs, myset') \<Rightarrow>
               (case py_set_of_list outs of
                  Inl e \<Rightarrow> Inl e
                | Inr s \<Rightarrow> Inr (PSet s, myset')))"
| "unpack_remotedata_myset tokey byte_keys (PFrozenset xs) myset =
     (if xs = [] then Inr (PFrozenset xs, myset)
      else case unpack_items tokey byte_keys xs myset of
             Inl e \<Rightarrow> Inl e
           | Inr (outs, myset') \<Rightarrow>
               (case py_set_of_list outs of
                  Inl e \<Rightarrow> Inl e
                | Inr s \<Rightarrow> Inr (PFrozenset s, myset')))"
| "unpack_remotedata_myset tokey byte_keys (PDict kvs) myset =
     (if kvs \<noteq> [] then
        (case unpack_values tokey byte_keys kvs myset of
           Inl e \<Rightarrow> Inl e
         | Inr (vals, myset') \<Rightarrow> Inr (PDict (zip (map fst kvs) vals), myset'))
      else Inr (PDict kvs, myset))"
| "unpack_remotedata_myset tokey byte_keys (PWrappedKey i k) myset =
     Inr (if byte_keys then tokey k else k, py_set_add myset (PWrappedKey i k))"
| "unpack_remotedata_myset tokey byte_keys PNone myset = Inr (PNone, myset)"
| "unpack_remotedata_myset tokey byte_keys (PBool b) myset = Inr (PBool b, myset)"
| "unpack_remotedata_myset tokey byte_keys (PInt n) myset = Inr (PInt n, myset)"
| "unpack_remotedata_myset tokey byte_keys (PStr s) myset = Inr (PStr s, myset)"
| "unpack_items tokey byte_keys [] myset = Inr ([], myset)"
| "unpack_items tokey byte_keys (item # items) myset =
     (case unpack_remotedata_myset tokey byte_keys item myset of
        Inl e \<Rightarrow> Inl e
      | Inr (out, myset') \<Rightarrow>
          (case unpack_items tokey byte_keys items myset' of
             Inl e \<Rightarrow> Inl e
           | Inr (outs, myset'') \<Rightarrow> Inr (out # outs, myset'')))"
| "unpack_values tokey byte_keys [] myset = Inr ([], myset)"
| "unpack_values tokey byte_keys ((k, v) # kvs) myset =
     (case unpack_remotedata_myset tokey byte_keys v myset of
        Inl e \<Rightarrow> Inl e
      | Inr (out, myset') \<Rightarrow>
          (case unpack_values tokey byte_keys kvs myset' of
             Inl e \<Rightarrow> Inl e
           | Inr (outs, myset'') \<Rightarrow> Inr (out # outs, myset'')))"

text \<open>The call with \<^verbatim>\<open>myset=None\<close>: a new set, and the pair \<^verbatim>\<open>(out, myset)\<close>.\<close>

definition unpack_remotedata :: "(pyval \<Rightarrow> pyval) \<Rightarrow> pyval \<Rightarrow> bool \<Rightarrow> exn + (pyval \<times> pyval list)" where
  "unpack_remotedata tokey o' byte_keys = unpack_remotedata_myset tokey byte_keys o' []"

section \<open>pack_data\<close>

text \<open>
  The guarded test
  \<^verbatim>\<open>try: if isinstance(o, key_types) and o in d: return d[o]\<close> \<^verbatim>\<open>except TypeError: pass\<close>:
  \<open>Some\<close> the known value, or \<open>None\<close> to go on. \<^verbatim>\<open>isinstance(o, key_types)\<close> is the predicate
  \<open>key_types\<close> (\<^verbatim>\<open>object\<close>, the default, holds of every value); \<^verbatim>\<open>o in d\<close> hashes \<^verbatim>\<open>o\<close> and
  raises \<^verbatim>\<open>TypeError\<close> when it cannot.
\<close>

definition known_data :: "(pyval \<Rightarrow> bool) \<Rightarrow> (pyval \<times> pyval) list \<Rightarrow> pyval \<Rightarrow> pyval option" where
  "known_data key_types d o' =
     (if key_types o' then (if hashable o' then py_dict_get d o' else None) else None)"

fun pack_data :: "(pyval \<Rightarrow> bool) \<Rightarrow> pyval \<Rightarrow> (pyval \<times> pyval) list \<Rightarrow> exn + pyval"
  and pack_items :: "(pyval \<Rightarrow> bool) \<Rightarrow> pyval list \<Rightarrow> (pyval \<times> pyval) list \<Rightarrow> exn + pyval list"
  and pack_values ::
    "(pyval \<Rightarrow> bool) \<Rightarrow> (pyval \<times> pyval) list \<Rightarrow> (pyval \<times> pyval) list \<Rightarrow> exn + (pyval \<times> pyval) list"
where
  "pack_data key_types (PTuple xs) d =
     (case known_data key_types d (PTuple xs) of
        Some v \<Rightarrow> Inr v
      | None \<Rightarrow> (case pack_items key_types xs d of Inl e \<Rightarrow> Inl e | Inr ys \<Rightarrow> Inr (PTuple ys)))"
| "pack_data key_types (PList xs) d =
     (case known_data key_types d (PList xs) of
        Some v \<Rightarrow> Inr v
      | None \<Rightarrow> (case pack_items key_types xs d of Inl e \<Rightarrow> Inl e | Inr ys \<Rightarrow> Inr (PList ys)))"
| "pack_data key_types (PSet xs) d =
     (case known_data key_types d (PSet xs) of
        Some v \<Rightarrow> Inr v
      | None \<Rightarrow>
          (case pack_items key_types xs d of
             Inl e \<Rightarrow> Inl e
           | Inr ys \<Rightarrow> (case py_set_of_list ys of Inl e \<Rightarrow> Inl e | Inr s \<Rightarrow> Inr (PSet s))))"
| "pack_data key_types (PFrozenset xs) d =
     (case known_data key_types d (PFrozenset xs) of
        Some v \<Rightarrow> Inr v
      | None \<Rightarrow>
          (case pack_items key_types xs d of
             Inl e \<Rightarrow> Inl e
           | Inr ys \<Rightarrow> (case py_set_of_list ys of Inl e \<Rightarrow> Inl e | Inr s \<Rightarrow> Inr (PFrozenset s))))"
| "pack_data key_types (PDict kvs) d =
     (case known_data key_types d (PDict kvs) of
        Some v \<Rightarrow> Inr v
      | None \<Rightarrow> (case pack_values key_types kvs d of Inl e \<Rightarrow> Inl e | Inr kvs' \<Rightarrow> Inr (PDict kvs')))"
| "pack_data key_types (PWrappedKey i k) d =
     (case known_data key_types d (PWrappedKey i k) of Some v \<Rightarrow> Inr v | None \<Rightarrow> Inr (PWrappedKey i k))"
| "pack_data key_types PNone d =
     (case known_data key_types d PNone of Some v \<Rightarrow> Inr v | None \<Rightarrow> Inr PNone)"
| "pack_data key_types (PBool b) d =
     (case known_data key_types d (PBool b) of Some v \<Rightarrow> Inr v | None \<Rightarrow> Inr (PBool b))"
| "pack_data key_types (PInt n) d =
     (case known_data key_types d (PInt n) of Some v \<Rightarrow> Inr v | None \<Rightarrow> Inr (PInt n))"
| "pack_data key_types (PStr s) d =
     (case known_data key_types d (PStr s) of Some v \<Rightarrow> Inr v | None \<Rightarrow> Inr (PStr s))"
| "pack_items key_types [] d = Inr []"
| "pack_items key_types (x # xs) d =
     (case pack_data key_types x d of
        Inl e \<Rightarrow> Inl e
      | Inr y \<Rightarrow> (case pack_items key_types xs d of Inl e \<Rightarrow> Inl e | Inr ys \<Rightarrow> Inr (y # ys)))"
| "pack_values key_types [] d = Inr []"
| "pack_values key_types ((k, v) # kvs) d =
     (case pack_data key_types v d of
        Inl e \<Rightarrow> Inl e
      | Inr y \<Rightarrow>
          (case pack_values key_types kvs d of Inl e \<Rightarrow> Inl e | Inr kvs' \<Rightarrow> Inr ((k, y) # kvs')))"

text \<open>
  The values the claims range over. \<open>plain\<close>: built from scalars, tuples, lists, sets,
  frozensets and dicts, with no \<^verbatim>\<open>WrappedKey\<close> anywhere. \<open>well_formed\<close>: what Python
  guarantees of every set, frozenset and dict, that its items (its keys) can be hashed and
  are pairwise different.
\<close>

fun plain :: "pyval \<Rightarrow> bool" where
  "plain (PTuple xs) = list_all plain xs"
| "plain (PList xs) = list_all plain xs"
| "plain (PSet xs) = list_all plain xs"
| "plain (PFrozenset xs) = list_all plain xs"
| "plain (PDict kvs) = list_all (\<lambda>kv. plain (fst kv) \<and> plain (snd kv)) kvs"
| "plain (PWrappedKey i k) = False"
| "plain v = True"

fun py_distinct :: "pyval list \<Rightarrow> bool" where
  "py_distinct [] = True"
| "py_distinct (x # xs) = (\<not> list_ex (\<lambda>y. py_eq x y) xs \<and> py_distinct xs)"

fun well_formed :: "pyval \<Rightarrow> bool" where
  "well_formed (PTuple xs) = list_all well_formed xs"
| "well_formed (PList xs) = list_all well_formed xs"
| "well_formed (PSet xs) = (list_all well_formed xs \<and> list_all hashable xs \<and> py_distinct xs)"
| "well_formed (PFrozenset xs) =
     (list_all well_formed xs \<and> list_all hashable xs \<and> py_distinct xs)"
| "well_formed (PDict kvs) =
     (list_all (\<lambda>kv. well_formed (fst kv) \<and> hashable (fst kv) \<and> well_formed (snd kv)) kvs \<and>
      py_distinct (map fst kvs))"
| "well_formed (PWrappedKey i k) = well_formed k"
| "well_formed v = True"


text \<open>
  Two handles made one after the other from the same key.
\<close>

definition handle_a :: pyval where
  "handle_a = fst (WrappedKey_init 0 (PStr ''k''))"

definition handle_b :: pyval where
  "handle_b = fst (WrappedKey_init (snd (WrappedKey_init 0 (PStr ''k''))) (PStr ''k''))"

section \<open>Measure and invariants of gather_from_workers\<close>

text \<open>
  What is left to do in a pass: for every key without a result, the number of its
  candidate addresses that are not marked bad, plus one while the key is not recorded
  as unobtainable. Every pass of the loop makes the sum smaller.
\<close>

definition remaining :: "'a list \<Rightarrow> ('k \<times> 'v) list \<Rightarrow> 'k list \<Rightarrow> 'k \<times> 'a list \<Rightarrow> nat" where
  "remaining bad res ab item =
     (if fst item \<in> fst ` set res then 0
      else length (candidates (snd item) bad) + (if fst item \<in> set ab then 0 else 1))"

definition gather_measure :: "('k \<times> 'a list) list \<Rightarrow> ('k, 'a, 'v) gather_state \<Rightarrow> nat" where
  "gather_measure who_has s =
     sum_list (map (remaining (bad_addresses s) (results s) (all_bad_keys s)) who_has)"

text \<open>
  What the pass over the items of \<^verbatim>\<open>who_has\<close> has built after the items \<open>seen\<close>:
  every entry of \<^verbatim>\<open>rev\<close> is a key without result with one of its candidates, \<^verbatim>\<open>d\<close> groups
  the same pairs by address, \<^verbatim>\<open>bad_keys\<close> holds keys without candidate, and no key
  without result is forgotten.
\<close>

definition rev_sound :: "'a list \<Rightarrow> ('k \<times> 'v) list \<Rightarrow> ('k \<times> 'a list) list \<Rightarrow> ('k \<times> 'a) list \<Rightarrow> bool" where
  "rev_sound bad res seen rv =
     (\<forall>k a. map_of rv k = Some a \<longrightarrow>
        k \<notin> fst ` set res \<and> (\<exists>addrs. (k, addrs) \<in> set seen \<and> a \<in> set (candidates addrs bad)))"

definition d_rev_agree :: "('a \<times> 'k list) list \<Rightarrow> ('k \<times> 'a) list \<Rightarrow> bool" where
  "d_rev_agree d rv =
     (\<forall>k a. (map_of rv k = Some a) = (\<exists>ks. map_of d a = Some ks \<and> k \<in> set ks))"

definition bad_keys_sound :: "'a list \<Rightarrow> ('k \<times> 'v) list \<Rightarrow> ('k \<times> 'a list) list \<Rightarrow> 'k list \<Rightarrow> bool" where
  "bad_keys_sound bad res seen bk =
     (\<forall>k. k \<in> set bk \<longrightarrow>
        k \<notin> fst ` set res \<and> (\<exists>addrs. (k, addrs) \<in> set seen \<and> candidates addrs bad = []))"

definition pass_complete ::
  "'a list \<Rightarrow> ('k \<times> 'v) list \<Rightarrow> ('k \<times> 'a list) list \<Rightarrow> ('k \<times> 'a) list \<Rightarrow> 'k list \<Rightarrow> bool" where
  "pass_complete bad res seen rv bk =
     (\<forall>k addrs. (k, addrs) \<in> set seen \<longrightarrow> k \<notin> fst ` set res \<longrightarrow>
        (if candidates addrs bad = [] then k \<in> set bk else map_of rv k \<noteq> None))"

definition pass_inv :: "'a list \<Rightarrow> ('k \<times> 'v) list \<Rightarrow> ('k \<times> 'a list) list \<Rightarrow>
   ('a \<times> 'k list) list \<times> ('k \<times> 'a) list \<times> 'k list \<Rightarrow> bool" where
  "pass_inv bad res seen acc =
     (case acc of (d, rv, bk) \<Rightarrow>
        rev_sound bad res seen rv \<and> d_rev_agree d rv \<and> bad_keys_sound bad res seen bk \<and>
        pass_complete bad res seen rv bk \<and> distinct (map fst d) \<and> distinct (map fst rv) \<and>
        distinct bk)"

text \<open>
  What holds before and after every pass when responses hold requested keys only: results
  and unobtainable keys are keys of \<^verbatim>\<open>who_has\<close>, without repetition and disjoint, and an
  unobtainable key has no candidate left. \<open>unreachable_inv\<close> adds, for a key whose
  addresses all fail, that it has no result and that its addresses marked bad are among
  the missing workers.
\<close>

definition gather_inv :: "('k \<times> 'a list) list \<Rightarrow> ('k, 'a, 'v) gather_state \<Rightarrow> bool" where
  "gather_inv who_has s =
     (fst ` set (results s) \<subseteq> fst ` set who_has \<and> distinct (map fst (results s)) \<and>
      set (all_bad_keys s) \<subseteq> fst ` set who_has \<and> distinct (all_bad_keys s) \<and>
      fst ` set (results s) \<inter> set (all_bad_keys s) = {} \<and>
      (\<forall>item \<in> set who_has. fst item \<in> set (all_bad_keys s) \<longrightarrow>
          candidates (snd item) (bad_addresses s) = []))"

definition unreachable_inv ::
  "('k \<times> 'a list) list \<Rightarrow> 'k \<Rightarrow> 'a list \<Rightarrow> ('k, 'a, 'v) gather_state \<Rightarrow> bool" where
  "unreachable_inv who_has k addrs s =
     (gather_inv who_has s \<and> k \<notin> fst ` set (results s) \<and>
      (\<forall>a \<in> set addrs. a \<in> set (bad_addresses s) \<longrightarrow> a \<in> set (missing_workers s)))"

text \<open>
  A fetch to try the claims on: the worker \<^verbatim>\<open>w1\<close> is unreachable, every other worker returns
  the value 0 for every key asked.
\<close>

definition fetch_w1_down :: "nat \<Rightarrow> string \<Rightarrow> string list \<Rightarrow> exn + (string \<times> nat) list" where
  "fetch_w1_down i a ks = (if a = ''w1'' then Inl EnvironmentError else Inr (map (\<lambda>k. (k, 0)) ks))"

section \<open>Facts about dictionaries, grouping and the worker rotation\<close>

lemma snth_cycle: "u \<noteq> [] \<Longrightarrow> cycle u !! n = u ! (n mod length u)"
proof -
  assume u: "u \<noteq> []"
  have "cycle u !! n = shd (sdrop n (cycle u))" using sdrop_snth[of n "cycle u" 0] by simp
  also have "\<dots> = hd (rotate (n mod length u) u)" by (simp add: sdrop_cycle[OF u])
  also have "\<dots> = u ! (n mod length u)" using u by (simp add: hd_rotate_conv_nth)
  finally show ?thesis .
qed

lemma stake_nth': "i < n \<Longrightarrow> stake n s ! i = s !! i"
proof (induction n arbitrary: i s)
  case 0 then show ?case by simp
next
  case (Suc n) then show ?case by (cases i) auto
qed

lemma assign_workers_eq:
  assumes "workers \<noteq> []" "length names = length vals"
  shows "assign_workers c workers names vals =
         map (\<lambda>i. (workers ! ((c + i) mod length workers), names ! i, vals ! i)) [0..<length names]"
proof (rule nth_equalityI)
  show "length (assign_workers c workers names vals) = length (map (\<lambda>i. (workers ! ((c + i) mod length workers), names ! i, vals ! i)) [0..<length names])"
    using assms by (simp add: assign_workers_def)
next
  fix i assume "i < length (assign_workers c workers names vals)"
  then have i: "i < length names" using assms by (simp add: assign_workers_def)
  have "(c mod length workers + i) mod length workers = (c + i) mod length workers"
    by (simp add: mod_add_left_eq)
  then show "assign_workers c workers names vals ! i =
      map (\<lambda>i. (workers ! ((c + i) mod length workers), names ! i, vals ! i)) [0..<length names] ! i"
    using i assms by (simp add: assign_workers_def stake_nth' sdrop_snth snth_cycle)
qed

lemma map_of_dict_set: "map_of (dict_set d k v) = (map_of d)(k \<mapsto> v)"
  by (induction d) (auto)

lemma keys_dict_set: "map fst (dict_set d k v) = (if k \<in> fst ` set d then map fst d else map fst d @ [k])"
  by (induction d) (force+)

lemma dict_set_new: "k \<notin> fst ` set d \<Longrightarrow> dict_set d k v = d @ [(k, v)]"
  by (induction d) auto

lemma dict_update_distinct: "distinct (map fst d @ map fst xs) \<Longrightarrow> dict_update d xs = d @ xs"
  unfolding dict_update_def
proof (induction xs arbitrary: d)
  case Nil then show ?case by simp
next
  case (Cons x xs)
  obtain k v where x: "x = (k, v)" by (cases x)
  from Cons.prems have "k \<notin> fst ` set d" by (auto simp: x)
  then have "dict_set d k v = d @ [(k, v)]" by (rule dict_set_new)
  moreover have "distinct (map fst (d @ [(k, v)]) @ map fst xs)" using Cons.prems by (auto simp: x)
  ultimately show ?case using Cons.IH[of "d @ [(k, v)]"] by (simp add: x)
qed

lemma dict_of_items_distinct: "distinct (map fst xs) \<Longrightarrow> dict_of_items xs = xs"
  using dict_update_distinct[of "[]" xs] by (simp add: dict_of_items_def)

lemma map_of_dict_append:
  "map_of (dict_append d g x) = (map_of d)(g \<mapsto> (case map_of d g of None \<Rightarrow> [] | Some xs \<Rightarrow> xs) @ [x])"
  by (simp add: dict_append_def map_of_dict_set)

lemma groupby_acc_map_of:
  "map_of (foldl (\<lambda>d x. dict_append d (key x) x) acc xs) g =
     (if map_of acc g = None \<and> filter (\<lambda>x. key x = g) xs = [] then None
      else Some ((case map_of acc g of None \<Rightarrow> [] | Some ys \<Rightarrow> ys) @ filter (\<lambda>x. key x = g) xs))"
proof (induction xs arbitrary: acc)
  case Nil then show ?case by (auto split: option.splits)
next
  case (Cons x xs)
  show ?case
    by (simp add: Cons.IH map_of_dict_append split: option.splits)
qed

lemma map_of_groupby:
  "map_of (groupby key xs) g =
     (if filter (\<lambda>x. key x = g) xs = [] then None else Some (filter (\<lambda>x. key x = g) xs))"
  by (simp add: groupby_def groupby_acc_map_of)

lemma distinct_dict_set: "distinct (map fst d) \<Longrightarrow> distinct (map fst (dict_set d k v))"
  by (simp add: keys_dict_set)

lemma distinct_groupby_acc:
  "distinct (map fst acc) \<Longrightarrow> distinct (map fst (foldl (\<lambda>d x. dict_append d (key x) x) acc xs))"
  by (induction xs arbitrary: acc) (simp_all add: dict_append_def distinct_dict_set)

lemma distinct_groupby: "distinct (map fst (groupby key xs))"
  by (simp add: groupby_def distinct_groupby_acc)

lemma groupby_acc_distinct:
  "distinct (map fst acc @ map key xs) \<Longrightarrow>
   foldl (\<lambda>d x. dict_append d (key x) x) acc xs = acc @ map (\<lambda>x. (key x, [x])) xs"
proof (induction xs arbitrary: acc)
  case Nil then show ?case by simp
next
  case (Cons x xs)
  from Cons.prems have nk: "key x \<notin> fst ` set acc" by auto
  then have "map_of acc (key x) = None" by (simp add: map_of_eq_None_iff)
  then have "dict_append acc (key x) x = acc @ [(key x, [x])]"
    using nk by (simp add: dict_append_def dict_set_new)
  moreover have "distinct (map fst (acc @ [(key x, [x])]) @ map key xs)" using Cons.prems by auto
  ultimately show ?case using Cons.IH[of "acc @ [(key x, [x])]"] by simp
qed

lemma groupby_distinct: "distinct (map key xs) \<Longrightarrow> groupby key xs = map (\<lambda>x. (key x, [x])) xs"
  using groupby_acc_distinct[of "[]" key xs] by (simp add: groupby_def)

lemma scatter_payload:
  assumes w: "workers \<noteq> []" and dist: "distinct (map fst data)"
  shows "map_of (map (\<lambda>(worker, v). (worker, dict_of_items (map snd v)))
            (groupby fst (assign_workers c workers (map fst data) (map snd data)))) a =
         (let idx = filter (\<lambda>i. workers ! ((c + i) mod length workers) = a) [0..<length data]
          in if idx = [] then None else Some (map (\<lambda>i. data ! i) idx))"
proof -
  let ?tgt = "\<lambda>i. workers ! ((c + i) mod length workers)"
  let ?L = "assign_workers c workers (map fst data) (map snd data)"
  let ?idx = "filter (\<lambda>i. ?tgt i = a) [0..<length data]"
  have L: "?L = map (\<lambda>i. (?tgt i, data ! i)) [0..<length data]"
    using assign_workers_eq[OF w, of "map fst data" "map snd data" c] by simp
  have flt: "filter (\<lambda>x. fst x = a) ?L = map (\<lambda>i. (?tgt i, data ! i)) ?idx"
    by (simp add: L filter_map comp_def)
  have pay: "map snd (filter (\<lambda>x. fst x = a) ?L) = map (\<lambda>i. data ! i) ?idx"
    by (simp add: flt comp_def)
  have "distinct (map (\<lambda>i. fst (data ! i)) ?idx)"
  proof -
    have "distinct ?idx" by simp
    moreover have "inj_on (\<lambda>i. fst (data ! i)) (set ?idx)"
      using dist by (auto simp: inj_on_def distinct_conv_nth)
    ultimately show ?thesis by (simp add: distinct_map)
  qed
  then have dd: "distinct (map fst (map (\<lambda>i. data ! i) ?idx))" by (simp add: comp_def)
  have "map_of (map (\<lambda>(worker, v). (worker, dict_of_items (map snd v))) (groupby fst ?L)) a
        = map_option (\<lambda>v. dict_of_items (map snd v)) (map_of (groupby fst ?L) a)"
    by (simp add: map_of_map)
  also have "\<dots> = (if ?idx = [] then None else Some (dict_of_items (map (\<lambda>i. data ! i) ?idx)))"
    unfolding map_of_groupby flt pay[unfolded flt] by (simp add: comp_def)
  also have "\<dots> = (if ?idx = [] then None else Some (map (\<lambda>i. data ! i) ?idx))"
    unfolding dict_of_items_distinct[OF dd] ..
  finally show ?thesis by (simp add: Let_def)
qed

lemma scatter_who_has:
  assumes w: "workers \<noteq> []" and dist: "distinct (map fst data)"
  shows "map (\<lambda>(k, v). (k, map fst v))
            (groupby (\<lambda>(w, k, x). k) (assign_workers c workers (map fst data) (map snd data))) =
         map (\<lambda>i. (fst (data ! i), [workers ! ((c + i) mod length workers)])) [0..<length data]"
proof -
  let ?tgt = "\<lambda>i. workers ! ((c + i) mod length workers)"
  let ?L = "assign_workers c workers (map fst data) (map snd data)"
  have L: "?L = map (\<lambda>i. (?tgt i, data ! i)) [0..<length data]"
    using assign_workers_eq[OF w, of "map fst data" "map snd data" c] by simp
  have "map (\<lambda>(w, k, x). k) ?L = map fst data"
    unfolding L by (rule nth_equalityI) (simp_all add: case_prod_beta)
  then have "distinct (map (\<lambda>(w, k, x). k) ?L)" using dist by simp
  then have "groupby (\<lambda>(w, k, x). k) ?L = map (\<lambda>x. ((\<lambda>(w, k, x). k) x, [x])) ?L"
    by (rule groupby_distinct)
  then show ?thesis unfolding L by (simp add: comp_def case_prod_beta)
qed

section \<open>Claims about scatter_to_workers\<close>

text \<open>
  C7. \<^verbatim>\<open>scatter_to_workers\<close> sends item \<open>i\<close> of the data to the worker at position
  \<open>(counter + i) mod length workers\<close> of the capacity-weighted worker sequence (each address
  repeated once per thread), and advances the process-wide counter by the number of items,
  whether or not a worker then fails; so the next call starts where this one stopped.
  The payload logged for every worker is the list of items with that target, and the
  returned \<^verbatim>\<open>who_has\<close> maps every name to its one target.
\<close>

theorem scatter_round_robin:
  assumes "data \<noteq> []" and "expand_workers nthreads \<noteq> []" and "distinct (map fst data)"
  shows "(let workers = expand_workers nthreads; c = round_robin_counter st;
              (res, st') = scatter_to_workers update_data nthreads data st
          in round_robin_counter st' = c + length data \<and>
             (\<exists>d. sent st' = sent st @ d \<and> distinct (map fst d) \<and>
                (\<forall>a. map_of d a =
                   (let idx = filter (\<lambda>i. workers ! ((c + i) mod length workers) = a) [0..<length data]
                    in if idx = [] then None else Some (map (\<lambda>i. data ! i) idx)))) \<and>
             (\<forall>names who_has nbytes. res = Inr (names, who_has, nbytes) \<longrightarrow>
                names = map fst data \<and>
                who_has = map (\<lambda>i. (fst (data ! i), [workers ! ((c + i) mod length workers)]))
                              [0..<length data]))"
proof -
  let ?workers = "expand_workers nthreads"
  let ?c = "round_robin_counter st"
  let ?L = "assign_workers ?c ?workers (map fst data) (map snd data)"
  let ?d = "map (\<lambda>(worker, v). (worker, dict_of_items (map snd v))) (groupby fst ?L)"
  have dd: "distinct (map fst ?d)"
    using distinct_groupby[of fst ?L] by (simp add: case_prod_beta comp_def)
  have pay: "\<forall>a. map_of ?d a =
      (let idx = filter (\<lambda>i. ?workers ! ((?c + i) mod length ?workers) = a) [0..<length data]
       in if idx = [] then None else Some (map (\<lambda>i. data ! i) idx))"
    using scatter_payload[OF assms(2,3)] by blast
  note wh = scatter_who_has[OF assms(2,3), of ?c]
  show ?thesis
  proof (cases "collect_responses (map (\<lambda>(address, v). update_data address v) ?d)")
    case (Inl e)
    then show ?thesis using assms(1,2) dd pay
      by (simp add: scatter_to_workers_def Let_def)
  next
    case (Inr out)
    then show ?thesis using assms(1,2) dd pay wh
      by (simp add: scatter_to_workers_def Let_def)
  qed
qed

theorem scatter_round_robin_witness:
  "[(''x'', 1::nat), (''y'', 2), (''z'', 3)] \<noteq> [] \<and>
   expand_workers [(''A'', 2), (''B'', 1)] \<noteq> [] \<and>
   distinct (map fst [(''x'', 1::nat), (''y'', 2), (''z'', 3)]) \<and>
   (let workers = expand_workers [(''A'', 2), (''B'', 1)];
        c = round_robin_counter (\<lparr>round_robin_counter = 4, sent = []\<rparr> :: (string, string, nat) scatter_state);
        (res, st') = scatter_to_workers (\<lambda>a v. Inr (map (\<lambda>(n, x). (n, x)) v))
                       [(''A'', 2), (''B'', 1)] [(''x'', 1::nat), (''y'', 2), (''z'', 3)]
                       (\<lparr>round_robin_counter = 4, sent = []\<rparr> :: (string, string, nat) scatter_state)
    in round_robin_counter st' = c + length [(''x'', 1::nat), (''y'', 2), (''z'', 3)] \<and>
       (\<exists>d. sent st' = sent (\<lparr>round_robin_counter = 4, sent = []\<rparr> :: (string, string, nat) scatter_state) @ d \<and> distinct (map fst d) \<and>
          (\<forall>a. map_of d a =
             (let idx = filter (\<lambda>i. workers ! ((c + i) mod length workers) = a)
                          [0..<length [(''x'', 1::nat), (''y'', 2), (''z'', 3)]]
              in if idx = [] then None
                 else Some (map (\<lambda>i. [(''x'', 1::nat), (''y'', 2), (''z'', 3)] ! i) idx)))) \<and>
       (\<forall>names who_has nbytes. res = Inr (names, who_has, nbytes) \<longrightarrow>
          names = map fst [(''x'', 1::nat), (''y'', 2), (''z'', 3)] \<and>
          who_has = map (\<lambda>i. (fst ([(''x'', 1::nat), (''y'', 2), (''z'', 3)] ! i),
                                 [workers ! ((c + i) mod length workers)]))
                        [0..<length [(''x'', 1::nat), (''y'', 2), (''z'', 3)]]))"
proof -
  have h1: "[(''x'', 1::nat), (''y'', 2), (''z'', 3)] \<noteq> []" by simp
  have h2: "expand_workers [(''A'', 2::int), (''B'', 1)] \<noteq> []" by (simp add: expand_workers_def)
  have h3: "distinct (map fst [(''x'', 1::nat), (''y'', 2), (''z'', 3)])" by simp
  note c = scatter_round_robin [OF h1 h2 h3,
        of "(\<lparr>round_robin_counter = 4, sent = []\<rparr> :: (string, string, nat) scatter_state)" "\<lambda>a v. Inr (map (\<lambda>(n, x). (n, x)) v)"]
  from h1 h2 h3 c show ?thesis by (intro conjI)
qed

text \<open>
  C10. On degenerate input \<^verbatim>\<open>scatter_to_workers\<close> raises before the counter moves and
  before any request is sent (the state, counter and request log, is returned unchanged):
  empty data raises \<^verbatim>\<open>ValueError\<close> (unpacking \<^verbatim>\<open>zip()\<close> of no items into two names),
  non-empty data with an empty \<^verbatim>\<open>nthreads\<close> raises \<^verbatim>\<open>ZeroDivisionError\<close>.
\<close>

theorem scatter_degenerate_input:
  "scatter_to_workers update_data nthreads [] st = (Inl ValueError, st) \<and>
   scatter_to_workers update_data [] (x # data) st = (Inl ZeroDivisionError, st)"
  by (simp add: scatter_to_workers_def expand_workers_def)

section \<open>Claims about the distributed lock\<close>

lemma held_state_eq:
  "held_state = \<lparr>events = Map.empty, ids = [NameStr ''x'' \<mapsto> Some ''h''], waiters = Map.empty,
                  is_set = [], callbacks = [], next_event = 0\<rparr>"
  by (simp add: held_state_def init_sched_def acquire_def acquire_loop_def acquire_finish_def)

lemma contended_state_eq:
  "contended_state =
   \<lparr>events = [NameStr ''x'' \<mapsto> [0, 1]], ids = [NameStr ''x'' \<mapsto> Some ''h''],
    waiters = [0 \<mapsto> \<lparr>w_name = NameStr ''x'', w_id = Some ''a'', w_timeout = None\<rparr>,
               1 \<mapsto> \<lparr>w_name = NameStr ''x'', w_id = Some ''b'', w_timeout = Some 1\<rparr>],
    is_set = [], callbacks = [], next_event = 2\<rparr>"
  by (simp add: contended_state_def held_state_eq acquire_def acquire_loop_def events_get_def
      Let_def numeral_2_eq_2)

text \<open>
  C1. Waiters are to be granted in the order of their tokens, and a waiter that times out is
  to return \<^verbatim>\<open>False\<close> and to take its own token out of the queue. The \<^verbatim>\<open>finally\<close> block
  pops the head of the queue instead. With \<^verbatim>\<open>a\<close> waiting in front of \<^verbatim>\<open>b\<close>, the timeout of
  \<^verbatim>\<open>b\<close> removes the token of \<^verbatim>\<open>a\<close>, leaves the token of \<^verbatim>\<open>b\<close> queued, and ends in the
  \<^verbatim>\<open>AssertionError\<close> of \<^verbatim>\<open>assert event is event2\<close> rather than in \<^verbatim>\<open>False\<close>. When the holder
  then releases, the event that is set is the one of \<^verbatim>\<open>b\<close>, which nobody awaits: the name
  is free, \<^verbatim>\<open>a\<close>, first in the queue, still waits, no callback is pending, and \<^verbatim>\<open>a\<close> can
  neither be woken nor time out.
\<close>

theorem timeout_behind_waiter:
  "(case acquire_timeout contended_state 1 of
      None \<Rightarrow> False
    | Some (r, s) \<Rightarrow>
        r = Returned (Inl AssertionError) \<and>
        events s (NameStr ''x'') = Some [1] \<and>
        waiters s 0 = Some \<lparr>w_name = NameStr ''x'', w_id = Some ''a'', w_timeout = None\<rparr> \<and>
        waiters s 1 = None \<and>
        (case release s (NameStr ''x'') (Some ''h'') of
           (r', s') \<Rightarrow>
             r' = Inr () \<and> callbacks s' = [1] \<and>
             (case run_callback s' of
                None \<Rightarrow> False
              | Some s'' \<Rightarrow>
                  ids s'' (NameStr ''x'') = None \<and> is_set s'' = [1] \<and>
                  acquire_wake s'' 0 = None \<and> acquire_timeout s'' 0 = None \<and>
                  waiters s'' 0 \<noteq> None \<and> callbacks s'' = [])))"
  by (simp add: contended_state_eq acquire_timeout_def popleft_assert_def events_get_def
      release_def run_callback_def acquire_wake_def Let_def)

text \<open>
  Whenever the remote call returns, with \<^verbatim>\<open>True\<close> or with \<^verbatim>\<open>False\<close>, the handle is marked
  held.
\<close>

lemma Lock_acquire_marks_locked:
  "Lock_acquire sync lk blocking timeout = Some (Inr result, lk') \<Longrightarrow> locked lk'"
  by (auto simp: Lock_acquire_def locked_def Let_def split: if_splits option.splits sum.splits)

text \<open>
  C2. \<^verbatim>\<open>Lock.acquire\<close> is to mark the handle held exactly when it returns \<^verbatim>\<open>True\<close>. It sets
  \<^verbatim>\<open>self._locked = True\<close> whatever the scheduler answered: a non-blocking acquire of a name
  that another client holds returns \<^verbatim>\<open>False\<close>, and \<^verbatim>\<open>locked()\<close> is \<^verbatim>\<open>True\<close> afterwards.
\<close>

theorem failed_acquire_marks_locked:
  "Lock_acquire
     (\<lambda>name ident timeout. map_option fst (lock_acquire_timing_out held_state name ident timeout))
     \<lparr>lock_name = NameStr ''x'', lock_id = ''me'', locked_flag = False\<rparr> False None =
   Some (Inr False, \<lparr>lock_name = NameStr ''x'', lock_id = ''me'', locked_flag = True\<rparr>) \<and>
   locked \<lparr>lock_name = NameStr ''x'', lock_id = ''me'', locked_flag = True\<rparr>"
  by (simp add: Lock_acquire_def locked_def held_state_eq lock_acquire_timing_out_def acquire_def
      acquire_loop_def acquire_timeout_def popleft_assert_def events_get_def acquire_finish_def
      Let_def)

text \<open>
  What \<^verbatim>\<open>release\<close> does on its error paths: it raises \<^verbatim>\<open>ValueError\<close> when
  \<^verbatim>\<open>self.ids.get(name)\<close> differs from the id, and no error path changes the state.
\<close>

lemma release_not_holder:
  "(case ids s (tuple_of_list name) of None \<Rightarrow> None | Some holder \<Rightarrow> holder) \<noteq> ident \<Longrightarrow>
   release s name ident = (Inl ValueError, s)"
  by (simp add: release_def)

lemma release_error_unchanged: "release s name ident = (Inl e, s') \<Longrightarrow> s' = s"
  by (auto simp: release_def Let_def events_get_def
      split: if_splits option.splits list.splits prod.splits)

text \<open>
  C8. \<^verbatim>\<open>release\<close> is to raise \<^verbatim>\<open>ValueError\<close> whenever the recorded holder is not the
  releasing id, also for a name that is not held. For a name that is not held
  \<^verbatim>\<open>self.ids.get(name)\<close> is \<^verbatim>\<open>None\<close>, which equals the id when the caller sent none (the
  default of the parameter): the test passes and \<^verbatim>\<open>del self.ids[name]\<close> raises
  \<^verbatim>\<open>KeyError\<close>. The state is unchanged.
\<close>

theorem release_unheld_without_id:
  "release init_sched (NameStr ''x'') None = (Inl KeyError, init_sched)"
  by (simp add: release_def init_sched_def)

section \<open>Facts about Python values, unpack_remotedata and pack_data\<close>

lemma py_eq_refl: "py_eq x x"
proof (induction x)
  case (PTuple xs) then show ?case by (simp add: list_all2_same)
next
  case (PList xs) then show ?case by (simp add: list_all2_same)
next
  case (PSet xs) then show ?case by auto
next
  case (PFrozenset xs) then show ?case by auto
next
  case (PDict kvs)
  have "\<And>kv. kv \<in> set kvs \<Longrightarrow> py_eq (fst kv) (fst kv) \<and> py_eq (snd kv) (snd kv)"
  proof -
    fix kv assume "kv \<in> set kvs"
    moreover obtain a b where kv: "kv = (a, b)" by (cases kv)
    moreover have "a \<in> Basic_BNFs.fsts kv" "b \<in> Basic_BNFs.snds kv" by (simp_all add: kv)
    ultimately show "py_eq (fst kv) (fst kv) \<and> py_eq (snd kv) (snd kv)"
      using PDict.IH[of kv a] PDict.IH[of kv b] by simp
  qed
  then show ?case by auto
qed simp_all

lemma py_distinct_append:
  "py_distinct (a @ b) \<longleftrightarrow> py_distinct a \<and> py_distinct b \<and> (\<forall>y \<in> set a. \<forall>x \<in> set b. \<not> py_eq y x)"
  by (induction a) (auto simp: list_ex_iff)

lemma foldl_py_set_add:
  "py_distinct (acc @ xs) \<Longrightarrow> foldl py_set_add acc xs = acc @ xs"
proof (induction xs arbitrary: acc)
  case Nil then show ?case by simp
next
  case (Cons x xs)
  from Cons.prems have "\<not> (\<exists>y \<in> set acc. py_eq y x)" by (auto simp: py_distinct_append)
  then have "py_set_add acc x = acc @ [x]" by (simp add: py_set_add_def)
  moreover have "py_distinct ((acc @ [x]) @ xs)" using Cons.prems by simp
  ultimately show ?case using Cons.IH[of "acc @ [x]"] by simp
qed

lemma py_set_of_list_distinct:
  "list_all hashable xs \<Longrightarrow> py_distinct xs \<Longrightarrow> py_set_of_list xs = Inr xs"
  using foldl_py_set_add[of "[]" xs] by (simp add: py_set_of_list_def)

lemma unpack_plain:
  "plain x \<Longrightarrow> well_formed x \<Longrightarrow> unpack_remotedata_myset tokey byte_keys x myset = Inr (x, myset)"
  "list_all plain xs \<Longrightarrow> list_all well_formed xs \<Longrightarrow>
     unpack_items tokey byte_keys xs myset = Inr (xs, myset)"
  "list_all (\<lambda>kv. plain (snd kv) \<and> well_formed (snd kv)) kvs \<Longrightarrow>
     unpack_values tokey byte_keys kvs myset = Inr (map snd kvs, myset)"
proof (induction tokey byte_keys x myset and tokey byte_keys xs myset and tokey byte_keys kvs myset
       rule: unpack_remotedata_myset_unpack_items_unpack_values.induct)
  case (3 tokey byte_keys xs myset)
  then show ?case by (simp add: py_set_of_list_distinct)
next
  case (4 tokey byte_keys xs myset)
  then show ?case by (simp add: py_set_of_list_distinct)
next
  case (5 tokey byte_keys kvs myset)
  have "list_all (\<lambda>kv. plain (snd kv) \<and> well_formed (snd kv)) kvs"
    using 5(2,3) by (simp add: list_all_iff)
  then show ?case using 5(1) by (simp add: zip_map_fst_snd)
qed simp_all

lemma known_data_empty: "known_data key_types [] x = None"
  by (simp add: known_data_def)

lemma pack_empty:
  "well_formed x \<Longrightarrow> d = [] \<Longrightarrow> pack_data key_types x d = Inr x"
  "list_all well_formed xs \<Longrightarrow> d = [] \<Longrightarrow> pack_items key_types xs d = Inr xs"
  "list_all (\<lambda>kv. well_formed (snd kv)) kvs \<Longrightarrow> d = [] \<Longrightarrow> pack_values key_types kvs d = Inr kvs"
proof (induction key_types x d and key_types xs d and key_types kvs d
       rule: pack_data_pack_items_pack_values.induct)
  case (5 key_types kvs d)
  have "list_all (\<lambda>kv. well_formed (snd kv)) kvs" using 5(2) by (simp add: list_all_iff)
  then show ?case using 5 by (simp add: known_data_empty)
qed (simp_all add: known_data_empty py_set_of_list_distinct)

lemma py_dict_get_in: "py_dict_get d x = Some v \<Longrightarrow> v \<in> snd ` set d"
  by (induction d x rule: py_dict_get.induct) (auto split: if_splits)

lemma known_data_hashable:
  "known_data key_types d x = Some v \<Longrightarrow> list_all (\<lambda>kv. hashable (snd kv)) d \<Longrightarrow> hashable v"
  by (auto simp: known_data_def list_all_iff split: if_splits dest!: py_dict_get_in)

lemma py_set_of_list_hashable: "list_all hashable xs \<Longrightarrow> \<exists>s. py_set_of_list xs = Inr s"
  by (simp add: py_set_of_list_def)

lemma pack_total_aux:
  "well_formed x \<Longrightarrow> list_all (\<lambda>kv. hashable (snd kv)) d \<Longrightarrow>
     \<exists>r. pack_data key_types x d = Inr r \<and> (hashable x \<longrightarrow> hashable r)"
  "list_all well_formed xs \<Longrightarrow> list_all (\<lambda>kv. hashable (snd kv)) d \<Longrightarrow>
     \<exists>rs. pack_items key_types xs d = Inr rs \<and> (list_all hashable xs \<longrightarrow> list_all hashable rs)"
  "list_all (\<lambda>kv. well_formed (snd kv)) kvs \<Longrightarrow> list_all (\<lambda>kv. hashable (snd kv)) d \<Longrightarrow>
     \<exists>rs. pack_values key_types kvs d = Inr rs"
proof (induction key_types x d and key_types xs d and key_types kvs d
       rule: pack_data_pack_items_pack_values.induct)
  case (1 key_types xs d)
  show ?case
  proof (cases "known_data key_types d (PTuple xs)")
    case None
    with 1 show ?thesis by auto
  next
    case (Some v)
    with 1(3) show ?thesis by (auto dest: known_data_hashable)
  qed
next
  case (2 key_types xs d)
  show ?case
  proof (cases "known_data key_types d (PList xs)")
    case None
    with 2 show ?thesis by auto
  next
    case (Some v)
    then show ?thesis by (simp add: known_data_def)
  qed
next
  case (3 key_types xs d)
  have k: "known_data key_types d (PSet xs) = None" by (simp add: known_data_def)
  from 3 k obtain rs where rs: "pack_items key_types xs d = Inr rs" "list_all hashable rs" by auto
  then show ?case using k py_set_of_list_hashable[OF rs(2)] by auto
next
  case (4 key_types xs d)
  show ?case
  proof (cases "known_data key_types d (PFrozenset xs)")
    case None
    with 4 obtain rs where rs: "pack_items key_types xs d = Inr rs" "list_all hashable rs" by auto
    then show ?thesis using None py_set_of_list_hashable[OF rs(2)] by auto
  next
    case (Some v)
    with 4(3) show ?thesis by (auto dest: known_data_hashable)
  qed
next
  case (5 key_types kvs d)
  have k: "known_data key_types d (PDict kvs) = None" by (simp add: known_data_def)
  have "list_all (\<lambda>kv. well_formed (snd kv)) kvs" using 5(2) by (simp add: list_all_iff)
  with 5 k show ?case by auto
next
  case (6 key_types i k d)
  then show ?case by (auto split: option.splits dest: known_data_hashable)
next
  case (7 key_types d)
  then show ?case by (auto split: option.splits dest: known_data_hashable)
next
  case (8 key_types b d)
  then show ?case by (auto split: option.splits dest: known_data_hashable)
next
  case (9 key_types n d)
  then show ?case by (auto split: option.splits dest: known_data_hashable)
next
  case (10 key_types s d)
  then show ?case by (auto split: option.splits dest: known_data_hashable)
next
  case (11 key_types d)
  then show ?case by simp
next
  case (12 key_types x xs d)
  from 12(1,3,4) obtain r where r: "pack_data key_types x d = Inr r" "hashable x \<longrightarrow> hashable r"
    by auto
  from 12(2)[OF r(1)] 12(3,4) obtain rs where
    rs: "pack_items key_types xs d = Inr rs" "list_all hashable xs \<longrightarrow> list_all hashable rs"
    by auto
  show ?case using r rs by simp
next
  case (13 key_types d)
  then show ?case by simp
next
  case (14 key_types k v kvs d)
  from 14(1,3,4) obtain r where r: "pack_data key_types v d = Inr r" by auto
  from 14(2)[OF r] 14(3,4) obtain rs where rs: "pack_values key_types kvs d = Inr rs" by auto
  show ?case using r rs by simp
qed

section \<open>Claims about WrappedKey, unpack_remotedata and pack_data\<close>

text \<open>
  C3, as the spec states it: two \<^verbatim>\<open>WrappedKey\<close> handles are equal exactly when their keys are
  equal. The class defines neither \<^verbatim>\<open>__eq__\<close> nor \<^verbatim>\<open>__hash__\<close>, so two handles made from
  the same key are different.
\<close>

theorem WrappedKey_equal_keys_not_equal:
  "WrappedKey_key handle_a = WrappedKey_key handle_b \<and> \<not> py_eq handle_a handle_b"
  by (simp add: handle_a_def handle_b_def WrappedKey_init_def)

text \<open>
  C3, amended: two \<^verbatim>\<open>WrappedKey\<close> handles are equal exactly when they are the same object,
  whatever their keys; accordingly the set of references that \<^verbatim>\<open>unpack_remotedata\<close> collects
  holds two handles once when they are the same object and twice otherwise, also when
  their keys are equal.
\<close>

theorem WrappedKey_equality_is_identity:
  "py_eq (PWrappedKey i k) (PWrappedKey j k') = (i = j) \<and>
   unpack_remotedata tokey (PList [PWrappedKey i k, PWrappedKey j k']) False =
     Inr (PList [k, k'],
          if i = j then [PWrappedKey i k] else [PWrappedKey i k, PWrappedKey j k'])"
  by (simp add: unpack_remotedata_def py_set_add_def)

text \<open>
  C4. On a value built from scalars, tuples, lists, sets, frozensets and dicts, with no
  \<^verbatim>\<open>WrappedKey\<close> in it, \<^verbatim>\<open>unpack_remotedata\<close> returns an empty set of references, and
  \<^verbatim>\<open>pack_data\<close> of its result with an empty mapping returns a value equal to the one
  started from.
\<close>

theorem unpack_pack_plain:
  assumes "plain x" and "well_formed x"
  shows "\<exists>y z. unpack_remotedata tokey x byte_keys = Inr (y, []) \<and>
               pack_data key_types y [] = Inr z \<and> py_eq z x"
  using unpack_plain(1)[OF assms, of tokey byte_keys "[]"] pack_empty(1)[OF assms(2) refl, of key_types]
  by (simp add: unpack_remotedata_def py_eq_refl)

theorem unpack_pack_plain_witness:
  "plain (PDict [(PStr ''a'', PSet [PInt 1, PTuple [PNone, PBool False]])]) \<and>
   well_formed (PDict [(PStr ''a'', PSet [PInt 1, PTuple [PNone, PBool False]])]) \<and>
   (\<exists>y z. unpack_remotedata id (PDict [(PStr ''a'', PSet [PInt 1, PTuple [PNone, PBool False]])]) False = Inr (y, []) \<and>
       pack_data (\<lambda>x. True) y [] = Inr z \<and>
       py_eq z (PDict [(PStr ''a'', PSet [PInt 1, PTuple [PNone, PBool False]])]))"
proof -
  have h1: "plain (PDict [(PStr ''a'', PSet [PInt 1, PTuple [PNone, PBool False]])])" by simp
  have h2: "well_formed (PDict [(PStr ''a'', PSet [PInt 1, PTuple [PNone, PBool False]])])" by simp
  from h1 h2 unpack_pack_plain[OF h1 h2, of id False "\<lambda>x. True"] show ?thesis by (intro conjI)
qed

text \<open>
  C9, as the spec states it: \<^verbatim>\<open>pack_data\<close> never raises. The guard covers the membership
  test only. When a known value that cannot be hashed replaces an item of a set, building
  the new set raises \<^verbatim>\<open>TypeError\<close>: \<^verbatim>\<open>pack_data({'x'}, {'x': [1]})\<close>.
\<close>

theorem pack_data_set_unhashable_known:
  "pack_data (\<lambda>x. True) (PSet [PStr ''x'']) [(PStr ''x'', PList [PInt 1])] = Inl TypeError"
  by (simp add: known_data_def py_set_of_list_def)

text \<open>
  C9, amended: \<^verbatim>\<open>pack_data\<close> returns, for every nesting of the supported shapes and every
  \<^verbatim>\<open>key_types\<close>, when every value of the known-data mapping can be hashed (an empty
  mapping at the least): the \<^verbatim>\<open>TypeError\<close> of the membership test on a list, set or dict is
  caught, and the value is rebuilt or passed through.
\<close>

theorem pack_data_total_known_hashable:
  assumes "well_formed x" and "list_all (\<lambda>kv. hashable (snd kv)) d"
  shows "\<exists>r. pack_data key_types x d = Inr r"
  using pack_total_aux(1)[OF assms] by blast

theorem pack_data_total_known_hashable_witness:
  "well_formed (PSet [PStr ''x'', PTuple [PStr ''y'']]) \<and>
   list_all (\<lambda>kv. hashable (snd kv)) [(PStr ''x'', PTuple [PInt 1])] \<and>
   (\<exists>r. pack_data (\<lambda>x. True) (PSet [PStr ''x'', PTuple [PStr ''y'']]) [(PStr ''x'', PTuple [PInt 1])] = Inr r)"
proof -
  have h1: "well_formed (PSet [PStr ''x'', PTuple [PStr ''y'']])" by simp
  have h2: "list_all (\<lambda>kv. hashable (snd kv)) [(PStr ''x'', PTuple [PInt 1])]" by simp
  from h1 h2 pack_data_total_known_hashable[OF h1 h2, of "\<lambda>x. True"] show ?thesis by (intro conjI)
qed

section \<open>Facts about gather_from_workers\<close>

lemma keys_dict_set': "fst ` set (dict_set d k v) = insert k (fst ` set d)"
proof -
  have "fst ` set (dict_set d k v) = set (map fst (dict_set d k v))" by (metis list.set_map)
  also have "\<dots> = set (if k \<in> fst ` set d then map fst d else map fst d @ [k])"
    by (simp only: keys_dict_set)
  also have "\<dots> = insert k (fst ` set d)" by auto
  finally show ?thesis .
qed

lemma keys_dict_update:
  "fst ` set (dict_update d other) = fst ` set d \<union> fst ` set other"
  unfolding dict_update_def
proof (induction other arbitrary: d)
  case Nil then show ?case by simp
next
  case (Cons x xs)
  obtain k v where x: "x = (k, v)" by (cases x)
  show ?case using Cons.IH[of "dict_set d k v"] by (simp add: x keys_dict_set')
qed

lemma distinct_dict_update:
  "distinct (map fst d) \<Longrightarrow> distinct (map fst (dict_update d other))"
  unfolding dict_update_def
proof (induction other arbitrary: d)
  case Nil then show ?case by simp
next
  case (Cons x xs)
  obtain k v where x: "x = (k, v)" by (cases x)
  show ?case using Cons.IH[of "dict_set d k v"] Cons.prems by (simp add: x distinct_dict_set)
qed

lemma sum_list_strict_mono_nat:
  fixes f g :: "'a \<Rightarrow> nat"
  assumes "\<forall>x \<in> set xs. f x \<le> g x" and "\<exists>x \<in> set xs. f x < g x"
  shows "sum_list (map f xs) < sum_list (map g xs)"
  using assms
proof (induction xs)
  case Nil then show ?case by simp
next
  case (Cons x xs)
  have le: "sum_list (map f xs) \<le> sum_list (map g xs)"
    using Cons.prems(1) by (intro sum_list_mono) simp
  show ?case
  proof (cases "f x < g x")
    case True
    with le show ?thesis by simp
  next
    case False
    with Cons.prems have ex: "\<exists>x \<in> set xs. f x < g x" and fx: "f x \<le> g x" by auto
    have "sum_list (map f xs) < sum_list (map g xs)" using Cons.IH ex Cons.prems(1) by simp
    with fx show ?thesis by simp
  qed
qed

lemma rev_sound_mono: "rev_sound bad res seen rv \<Longrightarrow> rev_sound bad res (seen @ xs) rv"
  unfolding rev_sound_def by (metis Un_iff set_append)

lemma bad_keys_sound_mono: "bad_keys_sound bad res seen bk \<Longrightarrow> bad_keys_sound bad res (seen @ xs) bk"
  unfolding bad_keys_sound_def by (metis Un_iff set_append)

lemma rev_sound_fresh:
  assumes "rev_sound bad res seen rv" and "key \<notin> fst ` set seen"
  shows "map_of rv key = None"
proof (cases "map_of rv key")
  case (Some a)
  with assms(1) obtain addrs where "(key, addrs) \<in> set seen" unfolding rev_sound_def by blast
  then have "key \<in> fst ` set seen" by force
  with assms(2) show ?thesis by simp
qed simp

lemma pass_complete_skip:
  assumes "pass_complete bad res seen rv bk" and "key \<in> fst ` set res"
  shows "pass_complete bad res (seen @ [(key, addrs)]) rv bk"
  using assms unfolding pass_complete_def by auto

lemma pass_complete_bad:
  assumes "pass_complete bad res seen rv bk" and "candidates addrs bad = []"
  shows "pass_complete bad res (seen @ [(key, addrs)]) rv (List.insert key bk)"
  using assms unfolding pass_complete_def by auto

lemma pass_complete_pick:
  assumes "pass_complete bad res seen rv bk" and "candidates addrs bad \<noteq> []"
  shows "pass_complete bad res (seen @ [(key, addrs)]) (dict_set rv key a) bk"
  unfolding pass_complete_def
proof (intro allI impI)
  fix k addrs' assume h: "(k, addrs') \<in> set (seen @ [(key, addrs)])" "k \<notin> fst ` set res"
  show "if candidates addrs' bad = [] then k \<in> set bk else map_of (dict_set rv key a) k \<noteq> None"
  proof (cases "k = key")
    case True
    show ?thesis
    proof (cases "(k, addrs') \<in> set seen")
      case True
      with assms(1) h(2) have "if candidates addrs' bad = [] then k \<in> set bk else map_of rv k \<noteq> None"
        unfolding pass_complete_def by blast
      then show ?thesis by (auto simp: map_of_dict_set split: if_splits)
    next
      case False
      with h(1) have "addrs' = addrs" by simp
      with assms(2) True show ?thesis by (simp add: map_of_dict_set)
    qed
  next
    case False
    with h(1) have "(k, addrs') \<in> set seen" by simp
    with assms(1) h(2) have "if candidates addrs' bad = [] then k \<in> set bk else map_of rv k \<noteq> None"
      unfolding pass_complete_def by blast
    with False show ?thesis by (auto simp: map_of_dict_set split: if_splits)
  qed
qed

lemma bad_keys_sound_insert:
  assumes "bad_keys_sound bad res seen bk" and "key \<notin> fst ` set res" and "candidates addrs bad = []"
  shows "bad_keys_sound bad res (seen @ [(key, addrs)]) (List.insert key bk)"
proof -
  have "bad_keys_sound bad res (seen @ [(key, addrs)]) bk" using assms(1) by (rule bad_keys_sound_mono)
  then show ?thesis using assms(2,3) unfolding bad_keys_sound_def by auto
qed

lemma rev_sound_pick:
  assumes "rev_sound bad res seen rv" and "key \<notin> fst ` set res" and "a \<in> set (candidates addrs bad)"
  shows "rev_sound bad res (seen @ [(key, addrs)]) (dict_set rv key a)"
proof -
  have m: "rev_sound bad res (seen @ [(key, addrs)]) rv" using assms(1) by (rule rev_sound_mono)
  show ?thesis unfolding rev_sound_def
  proof (intro allI impI)
    fix k a' assume h: "map_of (dict_set rv key a) k = Some a'"
    show "k \<notin> fst ` set res \<and> (\<exists>addrs'. (k, addrs') \<in> set (seen @ [(key, addrs)]) \<and> a' \<in> set (candidates addrs' bad))"
    proof (cases "k = key")
      case True
      with h have "a' = a" by (simp add: map_of_dict_set)
      with True assms(2,3) show ?thesis by auto
    next
      case False
      with h have "map_of rv k = Some a'" by (simp add: map_of_dict_set)
      with m show ?thesis unfolding rev_sound_def by blast
    qed
  qed
qed

lemma d_rev_agree_pick:
  assumes agree: "d_rev_agree d rv" and fresh: "map_of rv key = None"
  shows "d_rev_agree (dict_append d a key) (dict_set rv key a)"
proof -
  have nod: "\<And>a' ks. map_of d a' = Some ks \<Longrightarrow> key \<notin> set ks"
  proof
    fix a' ks assume "map_of d a' = Some ks" "key \<in> set ks"
    with agree have "map_of rv key = Some a'" unfolding d_rev_agree_def by blast
    with fresh show False by simp
  qed
  show ?thesis unfolding d_rev_agree_def
  proof (intro allI)
    fix k a'
    have old: "(map_of rv k = Some a') = (\<exists>ks. map_of d a' = Some ks \<and> k \<in> set ks)"
      using agree unfolding d_rev_agree_def by blast
    show "(map_of (dict_set rv key a) k = Some a') =
          (\<exists>ks. map_of (dict_append d a key) a' = Some ks \<and> k \<in> set ks)"
    proof (cases "a' = a")
      case a: True
      show ?thesis
      proof (cases "k = key")
        case True
        with a show ?thesis by (simp add: map_of_dict_set map_of_dict_append)
      next
        case False
        with a old show ?thesis
          by (cases "map_of d a") (simp_all add: map_of_dict_set map_of_dict_append)
      qed
    next
      case na: False
      show ?thesis
      proof (cases "k = key")
        case True
        have "\<not> (\<exists>ks. map_of d a' = Some ks \<and> key \<in> set ks)" using nod by blast
        with True na show ?thesis by (simp add: map_of_dict_set map_of_dict_append)
      next
        case False
        with na old show ?thesis by (simp add: map_of_dict_set map_of_dict_append)
      qed
    qed
  qed
qed

lemma pass_inv_step:
  assumes inv: "pass_inv bad res seen acc" and new: "key \<notin> fst ` set seen"
  shows "pass_inv bad res (seen @ [(key, addrs)]) (choose_address r bad res acc (key, addrs))"
proof -
  obtain d rv bk where acc: "acc = (d, rv, bk)" by (cases acc)
  from inv have I: "rev_sound bad res seen rv" "d_rev_agree d rv" "bad_keys_sound bad res seen bk"
      "pass_complete bad res seen rv bk" "distinct (map fst d)" "distinct bk" "distinct (map fst rv)"
    unfolding pass_inv_def acc by simp_all
  show ?thesis
  proof (cases "key \<in> fst ` set res")
    case True
    then have "choose_address r bad res acc (key, addrs) = (d, rv, bk)"
      by (simp add: choose_address_def acc)
    then show ?thesis unfolding pass_inv_def
      using rev_sound_mono[OF I(1)] I(2) bad_keys_sound_mono[OF I(3)]
        pass_complete_skip[OF I(4) True] I(5,6,7) by simp
  next
    case False
    show ?thesis
    proof (cases "candidates addrs bad = []")
      case True
      then have "choose_address r bad res acc (key, addrs) = (d, rv, List.insert key bk)"
        using False by (simp add: choose_address_def acc random_choice_def)
      then show ?thesis unfolding pass_inv_def
        using rev_sound_mono[OF I(1)] I(2) bad_keys_sound_insert[OF I(3) False True]
          pass_complete_bad[OF I(4) True] I(5,6,7) by simp
    next
      case ne: False
      define a where "a = candidates addrs bad ! (r key mod length (candidates addrs bad))"
      have ain: "a \<in> set (candidates addrs bad)" using ne by (simp add: a_def)
      have "choose_address r bad res acc (key, addrs) = (dict_append d a key, dict_set rv key a, bk)"
        using False ne by (simp add: choose_address_def acc random_choice_def a_def)
      moreover have "distinct (map fst (dict_append d a key))"
        using I(5) by (simp add: dict_append_def distinct_dict_set)
      ultimately show ?thesis unfolding pass_inv_def
        using rev_sound_pick[OF I(1) False ain] d_rev_agree_pick[OF I(2) rev_sound_fresh[OF I(1) new]]
          bad_keys_sound_mono[OF I(3)] pass_complete_pick[OF I(4) ne] I(6)
          distinct_dict_set[OF I(7)] by simp
    qed
  qed
qed

lemma pass_inv_fold:
  assumes "pass_inv bad res seen acc" and "distinct (map fst (seen @ items))"
  shows "pass_inv bad res (seen @ items) (foldl (choose_address r bad res) acc items)"
  using assms
proof (induction items arbitrary: seen acc)
  case Nil then show ?case by simp
next
  case (Cons item items)
  obtain key addrs where item: "item = (key, addrs)" by (cases item)
  have "key \<notin> fst ` set seen" using Cons.prems(2) by (auto simp: item)
  from pass_inv_step[OF Cons.prems(1) this, of addrs r]
  have "pass_inv bad res (seen @ [item]) (choose_address r bad res acc item)" by (simp add: item)
  from Cons.IH[OF this] Cons.prems(2) show ?case by simp
qed

lemma pass_inv_init: "pass_inv bad res [] ([], [], [])"
  by (simp add: pass_inv_def rev_sound_def d_rev_agree_def bad_keys_sound_def pass_complete_def)

lemma pass_inv_all:
  "distinct (map fst who_has) \<Longrightarrow>
   pass_inv bad res who_has (foldl (choose_address r bad res) ([], [], []) who_has)"
  using pass_inv_fold[OF pass_inv_init, of who_has bad res r] by simp

lemma unresolved_key_exists:
  assumes d: "distinct (map fst who_has)" and c: "length res + length ab < length who_has"
  shows "\<exists>item \<in> set who_has. fst item \<notin> fst ` set res \<and> fst item \<notin> set ab"
proof (rule ccontr)
  assume "\<not> ?thesis"
  then have sub: "fst ` set who_has \<subseteq> fst ` set res \<union> set ab" by auto
  have "length who_has = card (fst ` set who_has)"
    using distinct_card[OF d] by simp
  also have "\<dots> \<le> card (fst ` set res \<union> set ab)" using sub by (intro card_mono) auto
  also have "\<dots> \<le> card (fst ` set res) + card (set ab)" by (rule card_Un_le)
  also have "\<dots> \<le> length res + length ab"
    using card_image_le[of "set res" fst] card_length[of res] card_length[of ab]
    by (simp add: add_mono le_trans)
  finally show False using c by simp
qed

lemma candidates_mono:
  "set bad \<subseteq> set bad' \<Longrightarrow> length (candidates addrs bad') \<le> length (candidates addrs bad)"
proof -
  assume s: "set bad \<subseteq> set bad'"
  have "candidates addrs bad' = filter (\<lambda>a. a \<notin> set bad') (candidates addrs bad)"
    using s by (auto simp: candidates_def intro: filter_cong)
  then show ?thesis by (metis length_filter_le)
qed

lemma candidates_less:
  assumes s: "set bad \<subseteq> set bad'" and a: "a \<in> set (candidates addrs bad)" and b: "a \<in> set bad'"
  shows "length (candidates addrs bad') < length (candidates addrs bad)"
proof -
  have "candidates addrs bad' = filter (\<lambda>a. a \<notin> set bad') (candidates addrs bad)"
    using s by (auto simp: candidates_def intro: filter_cong)
  then show ?thesis using length_filter_less[OF a, of "\<lambda>a. a \<notin> set bad'"] b by simp
qed

lemma gather_pass_InrD:
  assumes "gather_pass rnd fetch who_has s = Inr s'"
  obtains d rv bk missing response where
    "foldl (choose_address (rnd (iteration s)) (bad_addresses s) (results s)) ([], [], []) who_has = (d, rv, bk)"
    "await_responses (fetch (iteration s)) d (missing_workers s) [] = Inr (missing, response)"
    "bad_addresses s' = List.union (map snd (filter (\<lambda>(k, v). k \<notin> fst ` set response) rv)) (bad_addresses s)"
    "missing_workers s' = missing"
    "results s' = dict_update (results s) response"
    "all_bad_keys s' = (if bk \<noteq> [] then List.union bk (all_bad_keys s) else all_bad_keys s)"
    "iteration s' = Suc (iteration s)"
proof -
  obtain d rv bk where f: "foldl (choose_address (rnd (iteration s)) (bad_addresses s) (results s)) ([], [], []) who_has = (d, rv, bk)"
    by (metis prod_cases3)
  from assms f obtain missing response where
    a: "await_responses (fetch (iteration s)) d (missing_workers s) [] = Inr (missing, response)"
    by (cases "await_responses (fetch (iteration s)) d (missing_workers s) []")
       (auto simp: gather_pass_def Let_def)
  from assms f a have
    "s' = \<lparr>bad_addresses = List.union (map snd (filter (\<lambda>(k, v). k \<notin> fst ` set response) rv)) (bad_addresses s),
          missing_workers = missing, results = dict_update (results s) response,
          all_bad_keys = (if bk \<noteq> [] then List.union bk (all_bad_keys s) else all_bad_keys s),
          iteration = Suc (iteration s)\<rparr>"
    by (simp add: gather_pass_def Let_def)
  then show ?thesis using that[OF f a] by simp
qed

lemma all_bad_keys_union:
  "set (if bk \<noteq> [] then List.union bk ab else ab) = set bk \<union> set ab"
  by auto

lemma gather_pass_decreases:
  assumes d: "distinct (map fst who_has)"
    and c: "length (results s) + length (all_bad_keys s) < length who_has"
    and p: "gather_pass rnd fetch who_has s = Inr s'"
  shows "gather_measure who_has s' < gather_measure who_has s"
proof -
  from p obtain dd rv bk missing response where
    f: "foldl (choose_address (rnd (iteration s)) (bad_addresses s) (results s)) ([], [], []) who_has = (dd, rv, bk)"
    and bad': "bad_addresses s' = List.union (map snd (filter (\<lambda>(k, v). k \<notin> fst ` set response) rv)) (bad_addresses s)"
    and res': "results s' = dict_update (results s) response"
    and ab': "all_bad_keys s' = (if bk \<noteq> [] then List.union bk (all_bad_keys s) else all_bad_keys s)"
    by (rule gather_pass_InrD)
  have inv: "pass_inv (bad_addresses s) (results s) who_has (dd, rv, bk)"
    using pass_inv_all[OF d, of "bad_addresses s" "results s" "rnd (iteration s)"] f by simp
  then have rs: "rev_sound (bad_addresses s) (results s) who_has rv"
    and pc: "pass_complete (bad_addresses s) (results s) who_has rv bk"
    unfolding pass_inv_def by simp_all
  have badsub: "set (bad_addresses s) \<subseteq> set (bad_addresses s')" by (simp add: bad')
  have ressub: "fst ` set (results s) \<subseteq> fst ` set (results s')" by (simp add: res' keys_dict_update)
  have abset: "set (all_bad_keys s') = set bk \<union> set (all_bad_keys s)"
    unfolding ab' by (rule all_bad_keys_union)
  have le: "\<forall>item \<in> set who_has.
      remaining (bad_addresses s') (results s') (all_bad_keys s') item
      \<le> remaining (bad_addresses s) (results s) (all_bad_keys s) item"
  proof
    fix item assume "item \<in> set who_has"
    show "remaining (bad_addresses s') (results s') (all_bad_keys s') item
      \<le> remaining (bad_addresses s) (results s) (all_bad_keys s) item"
      using candidates_mono[OF badsub, of "snd item"] ressub abset
      by (auto simp: remaining_def)
  qed
  from unresolved_key_exists[OF d c] obtain k addrs where
    item: "(k, addrs) \<in> set who_has" and kr: "k \<notin> fst ` set (results s)"
    and kb: "k \<notin> set (all_bad_keys s)" by force
  have "remaining (bad_addresses s') (results s') (all_bad_keys s') (k, addrs)
      < remaining (bad_addresses s) (results s) (all_bad_keys s) (k, addrs)"
  proof (cases "k \<in> fst ` set (results s')")
    case True
    then show ?thesis using kr kb by (simp add: remaining_def)
  next
    case nr: False
    show ?thesis
    proof (cases "candidates addrs (bad_addresses s) = []")
      case True
      then have "k \<in> set bk" using pc item kr unfolding pass_complete_def by (metis (full_types))
      then have "k \<in> set (all_bad_keys s')" by (simp add: abset)
      moreover have "candidates addrs (bad_addresses s') = []"
        using candidates_mono[OF badsub, of addrs] True by simp
      ultimately show ?thesis using kr kb nr by (simp add: remaining_def)
    next
      case False
      then have "map_of rv k \<noteq> None" using pc item kr unfolding pass_complete_def by (metis (full_types))
      then obtain a where a: "map_of rv k = Some a" by auto
      with rs obtain addrs' where "(k, addrs') \<in> set who_has" "a \<in> set (candidates addrs' (bad_addresses s))"
        unfolding rev_sound_def by blast
      moreover have "addrs' = addrs"
        using d item calculation(1) by (meson eq_key_imp_eq_value)
      ultimately have ain: "a \<in> set (candidates addrs (bad_addresses s))" by simp
      have "k \<notin> fst ` set response" using nr by (simp add: res' keys_dict_update)
      moreover have "(k, a) \<in> set rv" using a by (rule map_of_SomeD)
      ultimately have "a \<in> set (bad_addresses s')" by (force simp: bad')
      from candidates_less[OF badsub ain this] show ?thesis
        using kr kb nr abset by (simp add: remaining_def)
    qed
  qed
  with item have "\<exists>item \<in> set who_has.
      remaining (bad_addresses s') (results s') (all_bad_keys s') item
      < remaining (bad_addresses s) (results s) (all_bad_keys s) item" by blast
  with le show ?thesis unfolding gather_measure_def by (rule sum_list_strict_mono_nat)
qed

lemma gather_loop_returns:
  assumes d: "distinct (map fst who_has)"
  shows "\<exists>r. gather_loop rnd fetch who_has s = Some r"
proof (induction "gather_measure who_has s" arbitrary: s rule: less_induct)
  case less
  show ?case
  proof (cases "length (results s) + length (all_bad_keys s) < length who_has")
    case False
    then show ?thesis by (subst gather_loop.simps) simp
  next
    case c: True
    show ?thesis
    proof (cases "gather_pass rnd fetch who_has s")
      case (Inl e)
      with c show ?thesis by (subst gather_loop.simps) simp
    next
      case (Inr s')
      from gather_pass_decreases[OF d c Inr] have "\<exists>r. gather_loop rnd fetch who_has s' = Some r"
        by (rule less)
      with c Inr show ?thesis by (subst gather_loop.simps) simp
    qed
  qed
qed

lemma gather_pass_progress:
  assumes d: "distinct (map fst who_has)"
    and p: "gather_pass rnd fetch who_has s = Inr s'"
    and item: "(k, addrs) \<in> set who_has" and kr: "k \<notin> fst ` set (results s)"
  shows "k \<in> fst ` set (results s') \<or>
         (\<exists>a \<in> set (candidates addrs (bad_addresses s)). a \<in> set (bad_addresses s')) \<or>
         (candidates addrs (bad_addresses s) = [] \<and> k \<in> set (all_bad_keys s'))"
proof -
  from p obtain dd rv bk missing response where
    f: "foldl (choose_address (rnd (iteration s)) (bad_addresses s) (results s)) ([], [], []) who_has = (dd, rv, bk)"
    and bad': "bad_addresses s' = List.union (map snd (filter (\<lambda>(k, v). k \<notin> fst ` set response) rv)) (bad_addresses s)"
    and res': "results s' = dict_update (results s) response"
    and ab': "all_bad_keys s' = (if bk \<noteq> [] then List.union bk (all_bad_keys s) else all_bad_keys s)"
    by (rule gather_pass_InrD)
  have inv: "pass_inv (bad_addresses s) (results s) who_has (dd, rv, bk)"
    using pass_inv_all[OF d, of "bad_addresses s" "results s" "rnd (iteration s)"] f by simp
  then have rs: "rev_sound (bad_addresses s) (results s) who_has rv"
    and pc: "pass_complete (bad_addresses s) (results s) who_has rv bk"
    unfolding pass_inv_def by simp_all
  have abset: "set (all_bad_keys s') = set bk \<union> set (all_bad_keys s)"
    unfolding ab' by (rule all_bad_keys_union)
  show ?thesis
  proof (cases "candidates addrs (bad_addresses s) = []")
    case True
    then have "k \<in> set bk" using pc item kr unfolding pass_complete_def by (metis (full_types))
    with True show ?thesis by (simp add: abset)
  next
    case False
    then have "map_of rv k \<noteq> None" using pc item kr unfolding pass_complete_def by (metis (full_types))
    then obtain a where a: "map_of rv k = Some a" by auto
    with rs obtain addrs' where "(k, addrs') \<in> set who_has" "a \<in> set (candidates addrs' (bad_addresses s))"
      unfolding rev_sound_def by blast
    moreover have "addrs' = addrs"
      using d item calculation(1) by (meson eq_key_imp_eq_value)
    ultimately have ain: "a \<in> set (candidates addrs (bad_addresses s))" by simp
    show ?thesis
    proof (cases "k \<in> fst ` set response")
      case True
      then show ?thesis by (simp add: res' keys_dict_update)
    next
      case False
      moreover have "(k, a) \<in> set rv" using a by (rule map_of_SomeD)
      ultimately have "a \<in> set (bad_addresses s')" by (force simp: bad')
      with ain show ?thesis by blast
    qed
  qed
qed

lemma await_responses_keys:
  assumes "await_responses f cs missing response = Inr (missing', response')"
    and r: "\<forall>w ks data. f w ks = Inr data \<longrightarrow> fst ` set data \<subseteq> set ks"
  shows "fst ` set response' \<subseteq>
         fst ` set response \<union> (\<Union>c \<in> {c \<in> set cs. \<exists>data. f (fst c) (snd c) = Inr data}. set (snd c))"
  using assms(1)
proof (induction cs arbitrary: missing response)
  case Nil
  then show ?case by simp
next
  case (Cons c cs)
  obtain worker keys where c: "c = (worker, keys)" by (cases c)
  show ?case
  proof (cases "f worker keys")
    case (Inl e)
    with Cons.prems have "await_responses f cs (List.insert worker missing) response = Inr (missing', response')"
      by (simp add: c split: if_splits)
    moreover have "{c' \<in> set (c # cs). \<exists>data. f (fst c') (snd c') = Inr data} =
        {c' \<in> set cs. \<exists>data. f (fst c') (snd c') = Inr data}"
      using Inl by (auto simp: c)
    ultimately show ?thesis using Cons.IH by simp
  next
    case (Inr data)
    with Cons.prems have "await_responses f cs missing (dict_update response data) = Inr (missing', response')"
      by (simp add: c)
    from Cons.IH[OF this] have A: "fst ` set response' \<subseteq> (fst ` set response \<union> fst ` set data) \<union>
         (\<Union>c \<in> {c \<in> set cs. \<exists>data. f (fst c) (snd c) = Inr data}. set (snd c))"
      by (simp add: keys_dict_update)
    have B: "fst ` set data \<subseteq> set keys" using Inr r by blast
    have "{c' \<in> set (c # cs). \<exists>data. f (fst c') (snd c') = Inr data} =
        insert c {c' \<in> set cs. \<exists>data. f (fst c') (snd c') = Inr data}"
      using Inr by (auto simp: c)
    then have C: "(\<Union>c \<in> {c' \<in> set (c # cs). \<exists>data. f (fst c') (snd c') = Inr data}. set (snd c)) =
        set keys \<union> (\<Union>c \<in> {c \<in> set cs. \<exists>data. f (fst c) (snd c) = Inr data}. set (snd c))"
      by (simp add: c)
    show ?thesis unfolding C using A B by blast
  qed
qed

lemma await_responses_missing:
  assumes "await_responses f cs missing response = Inr (missing', response')"
  shows "set missing \<subseteq> set missing' \<and>
         (\<forall>c \<in> set cs. f (fst c) (snd c) = Inl EnvironmentError \<longrightarrow> fst c \<in> set missing')"
  using assms
proof (induction cs arbitrary: missing response)
  case Nil
  then show ?case by simp
next
  case (Cons c cs)
  obtain worker keys where c: "c = (worker, keys)" by (cases c)
  show ?case
  proof (cases "f worker keys")
    case (Inl e)
    with Cons.prems have e: "e = EnvironmentError"
      and "await_responses f cs (List.insert worker missing) response = Inr (missing', response')"
      by (simp_all add: c split: if_splits)
    from Cons.IH[OF this(2)] Inl e show ?thesis by (auto simp: c)
  next
    case (Inr data)
    with Cons.prems have "await_responses f cs missing (dict_update response data) = Inr (missing', response')"
      by (simp add: c)
    from Cons.IH[OF this] Inr show ?thesis by (auto simp: c)
  qed
qed

lemma await_responses_no_exception:
  assumes r: "\<forall>w ks e. f w ks = Inl e \<longrightarrow> e = EnvironmentError"
  shows "\<exists>m r. await_responses f cs missing response = Inr (m, r)"
proof (induction cs arbitrary: missing response)
  case Nil
  then show ?case by simp
next
  case (Cons c cs)
  obtain worker keys where c: "c = (worker, keys)" by (cases c)
  show ?case
  proof (cases "f worker keys")
    case (Inl e)
    then have "e = EnvironmentError" using r by blast
    with Inl Cons.IH[of "List.insert worker missing" response] show ?thesis by (simp add: c)
  next
    case (Inr data)
    with Cons.IH[of missing "dict_update response data"] show ?thesis by (simp add: c)
  qed
qed

lemma response_keys_assigned:
  assumes inv: "pass_inv bad res who_has (dd, rv, bk)"
    and aw: "await_responses f dd missing [] = Inr (missing', response)"
    and r: "\<forall>w ks data. f w ks = Inr data \<longrightarrow> fst ` set data \<subseteq> set ks"
    and k: "k \<in> fst ` set response"
  shows "\<exists>a ks data. (a, ks) \<in> set dd \<and> k \<in> set ks \<and> f a ks = Inr data \<and> map_of rv k = Some a"
proof -
  from await_responses_keys[OF aw r] k
  obtain c where c: "c \<in> set dd" "\<exists>data. f (fst c) (snd c) = Inr data" "k \<in> set (snd c)"
    by auto
  obtain a ks where ak: "c = (a, ks)" by (cases c)
  from inv have dd: "distinct (map fst dd)" and ag: "d_rev_agree dd rv"
    unfolding pass_inv_def by simp_all
  have "map_of dd a = Some ks" using dd c(1) ak by simp
  with ag c(3) ak have "map_of rv k = Some a" unfolding d_rev_agree_def by auto
  with c ak show ?thesis by auto
qed

lemma who_has_value_unique:
  "distinct (map fst who_has) \<Longrightarrow> (k, x) \<in> set who_has \<Longrightarrow> (k, y) \<in> set who_has \<Longrightarrow> x = y"
  by (meson eq_key_imp_eq_value)

lemma gather_inv_pass:
  assumes d: "distinct (map fst who_has)"
    and r: "fetch_requested_only fetch"
    and I: "gather_inv who_has s"
    and p: "gather_pass rnd fetch who_has s = Inr s'"
  shows "gather_inv who_has s'"
proof -
  from p obtain dd rv bk missing response where
    f: "foldl (choose_address (rnd (iteration s)) (bad_addresses s) (results s)) ([], [], []) who_has = (dd, rv, bk)"
    and aw: "await_responses (fetch (iteration s)) dd (missing_workers s) [] = Inr (missing, response)"
    and bad': "bad_addresses s' = List.union (map snd (filter (\<lambda>(k, v). k \<notin> fst ` set response) rv)) (bad_addresses s)"
    and res': "results s' = dict_update (results s) response"
    and ab': "all_bad_keys s' = (if bk \<noteq> [] then List.union bk (all_bad_keys s) else all_bad_keys s)"
    by (rule gather_pass_InrD)
  have inv: "pass_inv (bad_addresses s) (results s) who_has (dd, rv, bk)"
    using pass_inv_all[OF d, of "bad_addresses s" "results s" "rnd (iteration s)"] f by simp
  then have rs: "rev_sound (bad_addresses s) (results s) who_has rv"
    and bs: "bad_keys_sound (bad_addresses s) (results s) who_has bk"
    and dbk: "distinct bk"
    unfolding pass_inv_def by simp_all
  have req: "\<forall>w ks data. fetch (iteration s) w ks = Inr data \<longrightarrow> fst ` set data \<subseteq> set ks"
    using r unfolding fetch_requested_only_def by blast
  have asg: "\<And>k. k \<in> fst ` set response \<Longrightarrow> \<exists>a. map_of rv k = Some a"
    using response_keys_assigned[OF inv aw req] by blast
  have asg': "\<And>k. k \<in> fst ` set response \<Longrightarrow>
      k \<notin> fst ` set (results s) \<and> (\<exists>addrs. (k, addrs) \<in> set who_has \<and> candidates addrs (bad_addresses s) \<noteq> [])"
  proof -
    fix k assume "k \<in> fst ` set response"
    then obtain a where "map_of rv k = Some a" using asg by blast
    with rs obtain addrs where "k \<notin> fst ` set (results s)" "(k, addrs) \<in> set who_has"
      "a \<in> set (candidates addrs (bad_addresses s))" unfolding rev_sound_def by blast
    then show "k \<notin> fst ` set (results s) \<and> (\<exists>addrs. (k, addrs) \<in> set who_has \<and> candidates addrs (bad_addresses s) \<noteq> [])"
      by auto
  qed
  have bk': "\<And>k. k \<in> set bk \<Longrightarrow>
      k \<notin> fst ` set (results s) \<and> (\<exists>addrs. (k, addrs) \<in> set who_has \<and> candidates addrs (bad_addresses s) = [])"
    using bs unfolding bad_keys_sound_def by blast
  from I have I1: "fst ` set (results s) \<subseteq> fst ` set who_has" and I2: "distinct (map fst (results s))"
    and I3: "set (all_bad_keys s) \<subseteq> fst ` set who_has" and I4: "distinct (all_bad_keys s)"
    and I5: "fst ` set (results s) \<inter> set (all_bad_keys s) = {}"
    and I6: "\<And>k addrs. (k, addrs) \<in> set who_has \<Longrightarrow> k \<in> set (all_bad_keys s) \<Longrightarrow>
          candidates addrs (bad_addresses s) = []"
    unfolding gather_inv_def by auto
  have badsub: "set (bad_addresses s) \<subseteq> set (bad_addresses s')" by (simp add: bad')
  have abset: "set (all_bad_keys s') = set bk \<union> set (all_bad_keys s)"
    unfolding ab' by (rule all_bad_keys_union)
  have reskeys: "fst ` set (results s') = fst ` set (results s) \<union> fst ` set response"
    by (simp add: res' keys_dict_update)
  have c1: "fst ` set (results s') \<subseteq> fst ` set who_has"
  proof
    fix k assume "k \<in> fst ` set (results s')"
    then consider "k \<in> fst ` set (results s)" | "k \<in> fst ` set response" unfolding reskeys by blast
    then show "k \<in> fst ` set who_has"
    proof cases
      case 1 with I1 show ?thesis by blast
    next
      case 2
      with asg' obtain addrs where "(k, addrs) \<in> set who_has" by blast
      then show ?thesis by force
    qed
  qed
  have c2: "distinct (map fst (results s'))" unfolding res' using I2 by (rule distinct_dict_update)
  have c3: "set (all_bad_keys s') \<subseteq> fst ` set who_has"
  proof
    fix k assume "k \<in> set (all_bad_keys s')"
    then consider "k \<in> set bk" | "k \<in> set (all_bad_keys s)" unfolding abset by blast
    then show "k \<in> fst ` set who_has"
    proof cases
      case 1
      with bk' obtain addrs where "(k, addrs) \<in> set who_has" by blast
      then show ?thesis by force
    next
      case 2 with I3 show ?thesis by blast
    qed
  qed
  have c4: "distinct (all_bad_keys s')" unfolding ab' using I4 by simp
  have empty_pool: "\<And>k addrs. (k, addrs) \<in> set who_has \<Longrightarrow> k \<in> set (all_bad_keys s') \<Longrightarrow>
      candidates addrs (bad_addresses s) = []"
  proof -
    fix k addrs assume m: "(k, addrs) \<in> set who_has" and "k \<in> set (all_bad_keys s')"
    then consider "k \<in> set bk" | "k \<in> set (all_bad_keys s)" unfolding abset by blast
    then show "candidates addrs (bad_addresses s) = []"
    proof cases
      case 1
      with bk' obtain addrs' where a': "(k, addrs') \<in> set who_has" "candidates addrs' (bad_addresses s) = []"
        by blast
      with who_has_value_unique[OF d m a'(1)] show ?thesis by simp
    next
      case 2 with I6 m show ?thesis by blast
    qed
  qed
  have c5: "fst ` set (results s') \<inter> set (all_bad_keys s') = {}"
  proof (rule ccontr)
    assume "fst ` set (results s') \<inter> set (all_bad_keys s') \<noteq> {}"
    then obtain k where kr: "k \<in> fst ` set (results s')" and kb: "k \<in> set (all_bad_keys s')" by blast
    from c3 kb obtain addrs where m: "(k, addrs) \<in> set who_has" by force
    from empty_pool[OF m kb] have e: "candidates addrs (bad_addresses s) = []" .
    from kr consider "k \<in> fst ` set (results s)" | "k \<in> fst ` set response" unfolding reskeys by blast
    then show False
    proof cases
      case 1
      from kb consider "k \<in> set bk" | "k \<in> set (all_bad_keys s)" unfolding abset by blast
      then show False
      proof cases
        case 1 with bk' \<open>k \<in> fst ` set (results s)\<close> show False by blast
      next
        case 2 with I5 \<open>k \<in> fst ` set (results s)\<close> show False by blast
      qed
    next
      case 2
      with asg' obtain addrs' where a': "(k, addrs') \<in> set who_has" "candidates addrs' (bad_addresses s) \<noteq> []"
        by blast
      with who_has_value_unique[OF d m a'(1)] e show False by simp
    qed
  qed
  have c6: "\<forall>item \<in> set who_has. fst item \<in> set (all_bad_keys s') \<longrightarrow>
          candidates (snd item) (bad_addresses s') = []"
  proof (intro ballI impI)
    fix item assume m: "item \<in> set who_has" and kb: "fst item \<in> set (all_bad_keys s')"
    have "candidates (snd item) (bad_addresses s) = []"
      using empty_pool[of "fst item" "snd item"] m kb by simp
    with candidates_mono[OF badsub, of "snd item"] show "candidates (snd item) (bad_addresses s') = []"
      by simp
  qed
  show ?thesis unfolding gather_inv_def using c1 c2 c3 c4 c5 c6 by blast
qed

lemma gather_inv_exit:
  assumes d: "distinct (map fst who_has)" and I: "gather_inv who_has s"
    and c: "\<not> length (results s) + length (all_bad_keys s) < length who_has"
  shows "length (results s) + length (all_bad_keys s) = length who_has \<and>
         fst ` set (results s) \<union> set (all_bad_keys s) = fst ` set who_has"
proof -
  from I have I1: "fst ` set (results s) \<subseteq> fst ` set who_has" and I2: "distinct (map fst (results s))"
    and I3: "set (all_bad_keys s) \<subseteq> fst ` set who_has" and I4: "distinct (all_bad_keys s)"
    and I5: "fst ` set (results s) \<inter> set (all_bad_keys s) = {}"
    unfolding gather_inv_def by auto
  have "card (fst ` set (results s) \<union> set (all_bad_keys s)) =
        card (fst ` set (results s)) + card (set (all_bad_keys s))"
    using I5 by (intro card_Un_disjoint) auto
  also have "card (fst ` set (results s)) = length (results s)"
    using distinct_card[OF I2] by simp
  also have "card (set (all_bad_keys s)) = length (all_bad_keys s)" using distinct_card[OF I4] .
  finally have eq: "card (fst ` set (results s) \<union> set (all_bad_keys s)) =
        length (results s) + length (all_bad_keys s)" .
  have wh: "card (fst ` set who_has) = length who_has" using distinct_card[OF d] by simp
  have sub: "fst ` set (results s) \<union> set (all_bad_keys s) \<subseteq> fst ` set who_has" using I1 I3 by blast
  then have "card (fst ` set (results s) \<union> set (all_bad_keys s)) \<le> card (fst ` set who_has)"
    by (intro card_mono) auto
  with eq wh c have len: "length (results s) + length (all_bad_keys s) = length who_has" by simp
  have "fst ` set (results s) \<union> set (all_bad_keys s) = fst ` set who_has"
    using sub eq wh len by (intro card_subset_eq) auto
  with len show ?thesis by simp
qed

lemma gather_loop_rule:
  assumes d: "distinct (map fst who_has)"
    and pres: "\<And>s s'. I s \<Longrightarrow> length (results s) + length (all_bad_keys s) < length who_has \<Longrightarrow>
               gather_pass rnd fetch who_has s = Inr s' \<Longrightarrow> I s'"
  shows "I s \<Longrightarrow> gather_loop rnd fetch who_has s = Some (Inr t) \<Longrightarrow>
         I t \<and> \<not> length (results t) + length (all_bad_keys t) < length who_has"
proof (induction "gather_measure who_has s" arbitrary: s rule: less_induct)
  case less
  show ?case
  proof (cases "length (results s) + length (all_bad_keys s) < length who_has")
    case False
    with less.prems(2) have "t = s" by (subst (asm) gather_loop.simps) simp
    with False less.prems(1) show ?thesis by simp
  next
    case c: True
    show ?thesis
    proof (cases "gather_pass rnd fetch who_has s")
      case (Inl e)
      with c less.prems(2) show ?thesis by (subst (asm) gather_loop.simps) simp
    next
      case (Inr s')
      with c less.prems(2) have "gather_loop rnd fetch who_has s' = Some (Inr t)"
        by (subst (asm) gather_loop.simps) simp
      from less.hyps[OF gather_pass_decreases[OF d c Inr] pres[OF less.prems(1) c Inr] this]
      show ?thesis .
    qed
  qed
qed

lemma gather_pass_no_exception:
  assumes "fetch_connectivity_only fetch"
  shows "\<exists>s'. gather_pass rnd fetch who_has s = Inr s'"
proof -
  obtain dd rv bk where f: "foldl (choose_address (rnd (iteration s)) (bad_addresses s) (results s)) ([], [], []) who_has = (dd, rv, bk)"
    by (metis prod_cases3)
  have "\<forall>w ks e. fetch (iteration s) w ks = Inl e \<longrightarrow> e = EnvironmentError"
    using assms unfolding fetch_connectivity_only_def by blast
  from await_responses_no_exception[OF this, of dd "missing_workers s" "[]"]
  obtain m r where "await_responses (fetch (iteration s)) dd (missing_workers s) [] = Inr (m, r)" by blast
  with f show ?thesis by (simp add: gather_pass_def Let_def)
qed

lemma gather_loop_no_exception:
  assumes d: "distinct (map fst who_has)" and c: "fetch_connectivity_only fetch"
  shows "\<exists>t. gather_loop rnd fetch who_has s = Some (Inr t)"
proof (induction "gather_measure who_has s" arbitrary: s rule: less_induct)
  case less
  show ?case
  proof (cases "length (results s) + length (all_bad_keys s) < length who_has")
    case False
    then show ?thesis by (subst gather_loop.simps) simp
  next
    case True
    from gather_pass_no_exception[OF c, of rnd who_has s] obtain s' where
      p: "gather_pass rnd fetch who_has s = Inr s'" by blast
    from less[OF gather_pass_decreases[OF d True p]] True p show ?thesis
      by (subst gather_loop.simps) simp
  qed
qed

lemma gather_inv_init: "gather_inv who_has gather_init"
  by (simp add: gather_inv_def gather_init_def)

lemma original_candidates_total:
  assumes "set ks \<subseteq> fst ` set original"
  shows "\<exists>bad_keys. original_candidates original ks = Inr bad_keys \<and> map fst bad_keys = ks \<and>
           (\<forall>k \<in> set ks. map_of bad_keys k = map_of original k)"
  using assms
proof (induction ks)
  case Nil then show ?case by simp
next
  case (Cons k ks)
  then obtain bad_keys where b: "original_candidates original ks = Inr bad_keys" "map fst bad_keys = ks"
    "\<forall>k \<in> set ks. map_of bad_keys k = map_of original k" by auto
  from Cons.prems have "k \<in> fst ` set original" by simp
  then obtain addrs where a: "map_of original k = Some addrs"
    by (metis domD dom_map_of_conv_image_fst)
  show ?case using a b by auto
qed

lemma keys_copy_who_has: "map fst (copy_who_has who_has) = map fst who_has"
  by (simp add: copy_who_has_def case_prod_beta comp_def)

lemma copy_who_has_member:
  "(k, addrs) \<in> set who_has \<Longrightarrow> (k, remdups addrs) \<in> set (copy_who_has who_has)"
  by (force simp: copy_who_has_def)

lemma all_bad_keys_pass:
  assumes d: "distinct (map fst who_has)"
    and I: "set (all_bad_keys s) \<subseteq> fst ` set who_has"
    and p: "gather_pass rnd fetch who_has s = Inr s'"
  shows "set (all_bad_keys s') \<subseteq> fst ` set who_has"
proof -
  from p obtain dd rv bk missing response where
    f: "foldl (choose_address (rnd (iteration s)) (bad_addresses s) (results s)) ([], [], []) who_has = (dd, rv, bk)"
    and ab': "all_bad_keys s' = (if bk \<noteq> [] then List.union bk (all_bad_keys s) else all_bad_keys s)"
    by (rule gather_pass_InrD)
  have "pass_inv (bad_addresses s) (results s) who_has (dd, rv, bk)"
    using pass_inv_all[OF d, of "bad_addresses s" "results s" "rnd (iteration s)"] f by simp
  then have bs: "bad_keys_sound (bad_addresses s) (results s) who_has bk"
    unfolding pass_inv_def by simp
  have "set bk \<subseteq> fst ` set who_has"
  proof
    fix k assume "k \<in> set bk"
    with bs obtain addrs where "(k, addrs) \<in> set who_has" unfolding bad_keys_sound_def by blast
    then show "k \<in> fst ` set who_has" by force
  qed
  moreover have "set (all_bad_keys s') = set bk \<union> set (all_bad_keys s)"
    unfolding ab' by (rule all_bad_keys_union)
  ultimately show ?thesis using I by simp
qed

lemma unreachable_inv_pass:
  assumes d: "distinct (map fst who_has)"
    and r: "fetch_requested_only fetch"
    and item: "(k, addrs) \<in> set who_has"
    and fail: "\<forall>a \<in> set addrs. \<forall>i ks. fetch i a ks = Inl EnvironmentError"
    and J: "unreachable_inv who_has k addrs s"
    and p: "gather_pass rnd fetch who_has s = Inr s'"
  shows "unreachable_inv who_has k addrs s'"
proof -
  from J have I: "gather_inv who_has s" and kr: "k \<notin> fst ` set (results s)"
    and mi: "\<forall>a \<in> set addrs. a \<in> set (bad_addresses s) \<longrightarrow> a \<in> set (missing_workers s)"
    unfolding unreachable_inv_def by simp_all
  from p obtain dd rv bk missing response where
    f: "foldl (choose_address (rnd (iteration s)) (bad_addresses s) (results s)) ([], [], []) who_has = (dd, rv, bk)"
    and aw: "await_responses (fetch (iteration s)) dd (missing_workers s) [] = Inr (missing, response)"
    and bad': "bad_addresses s' = List.union (map snd (filter (\<lambda>(k, v). k \<notin> fst ` set response) rv)) (bad_addresses s)"
    and mis': "missing_workers s' = missing"
    and res': "results s' = dict_update (results s) response"
    by (rule gather_pass_InrD)
  have inv: "pass_inv (bad_addresses s) (results s) who_has (dd, rv, bk)"
    using pass_inv_all[OF d, of "bad_addresses s" "results s" "rnd (iteration s)"] f by simp
  then have rs: "rev_sound (bad_addresses s) (results s) who_has rv"
    and ag: "d_rev_agree dd rv" and drv: "distinct (map fst rv)"
    unfolding pass_inv_def by simp_all
  have req: "\<forall>w ks data. fetch (iteration s) w ks = Inr data \<longrightarrow> fst ` set data \<subseteq> set ks"
    using r unfolding fetch_requested_only_def by blast
  have c1: "gather_inv who_has s'" using gather_inv_pass[OF d r I p] .
  have c2: "k \<notin> fst ` set (results s')"
  proof
    assume "k \<in> fst ` set (results s')"
    with kr have "k \<in> fst ` set response" by (simp add: res' keys_dict_update)
    from response_keys_assigned[OF inv aw req this] obtain a ks data where
      a: "fetch (iteration s) a ks = Inr data" "map_of rv k = Some a" by blast
    with rs obtain addrs' where "(k, addrs') \<in> set who_has" "a \<in> set (candidates addrs' (bad_addresses s))"
      unfolding rev_sound_def by blast
    with who_has_value_unique[OF d item this(1)] have "a \<in> set addrs" by (simp add: candidates_def)
    with fail a(1) show False by simp
  qed
  have c3: "\<forall>a \<in> set addrs. a \<in> set (bad_addresses s') \<longrightarrow> a \<in> set (missing_workers s')"
  proof (intro ballI impI)
    fix a assume a: "a \<in> set addrs" and b: "a \<in> set (bad_addresses s')"
    note am = await_responses_missing[OF aw]
    from b consider "a \<in> set (bad_addresses s)" | "a \<in> snd ` set rv" by (auto simp: bad')
    then show "a \<in> set (missing_workers s')"
    proof cases
      case 1
      with mi a have "a \<in> set (missing_workers s)" by blast
      with am show ?thesis by (auto simp: mis')
    next
      case 2
      then obtain k' where "(k', a) \<in> set rv" by force
      with drv have "map_of rv k' = Some a" by simp
      with ag obtain ks where "map_of dd a = Some ks" unfolding d_rev_agree_def by blast
      then have "(a, ks) \<in> set dd" by (rule map_of_SomeD)
      moreover have "fetch (iteration s) a ks = Inl EnvironmentError" using fail a by blast
      ultimately show ?thesis using am by (force simp: mis')
    qed
  qed
  from c1 c2 c3 show ?thesis unfolding unreachable_inv_def by blast
qed

lemma fetch_w1_down_requested_only: "fetch_requested_only fetch_w1_down"
  by (auto simp: fetch_requested_only_def fetch_w1_down_def split: if_splits)

lemma fetch_w1_down_connectivity_only: "fetch_connectivity_only fetch_w1_down"
  by (auto simp: fetch_connectivity_only_def fetch_w1_down_def split: if_splits)

lemma gather_w1_down:
  "gather_from_workers (\<lambda>i k. 0) fetch_w1_down [(''x'', [''w1'', ''w2'']), (''y'', [''w1''])] =
     Some (Inr ([(''x'', 0)], [(''y'', [''w1''])], [''w1'']))"
  by code_simp

section \<open>Claims about gather_from_workers\<close>

text \<open>
  C5. \<^verbatim>\<open>gather_from_workers\<close> returns or raises on every \<^verbatim>\<open>who_has\<close> dict, whatever the
  random choices and the fetches do, and it returns when a fetch raises nothing but
  connectivity errors. In every pass, every key of \<^verbatim>\<open>who_has\<close> that has no result yet gets
  a result, or one of its remaining candidate addresses is marked bad, or it has no
  candidate left and is recorded as unobtainable. When responses hold requested keys only,
  the loop ends with as many results and unobtainable keys as there are keys requested.
\<close>

theorem gather_terminates:
  assumes "distinct (map fst who_has)"
  shows "(\<exists>r. gather_from_workers rnd fetch who_has = Some r) \<and>
         (fetch_connectivity_only fetch \<longrightarrow>
            (\<exists>res bad missing. gather_from_workers rnd fetch who_has = Some (Inr (res, bad, missing)))) \<and>
         (\<forall>s s' k addrs.
            gather_pass rnd fetch (copy_who_has who_has) s = Inr s' \<longrightarrow>
            (k, addrs) \<in> set (copy_who_has who_has) \<longrightarrow> k \<notin> fst ` set (results s) \<longrightarrow>
              k \<in> fst ` set (results s') \<or>
              (\<exists>a \<in> set (candidates addrs (bad_addresses s)). a \<in> set (bad_addresses s')) \<or>
              (candidates addrs (bad_addresses s) = [] \<and> k \<in> set (all_bad_keys s'))) \<and>
         (fetch_requested_only fetch \<longrightarrow>
            (\<forall>res bad missing.
               gather_from_workers rnd fetch who_has = Some (Inr (res, bad, missing)) \<longrightarrow>
               length res + length bad = length who_has))"
proof -
  let ?wh = "copy_who_has who_has"
  have d: "distinct (map fst ?wh)" using assms by (simp add: keys_copy_who_has)
  have len: "length ?wh = length who_has" by (simp add: copy_who_has_def)
  have keys: "fst ` set ?wh = fst ` set who_has"
    using arg_cong[OF keys_copy_who_has[of who_has], of set] by simp
  have p1: "\<exists>r. gather_from_workers rnd fetch who_has = Some r"
  proof -
    from gather_loop_returns[OF d, of rnd fetch gather_init] obtain r where
      r: "gather_loop rnd fetch ?wh gather_init = Some r" by blast
    show ?thesis
    proof (cases r)
      case (Inl e)
      with r show ?thesis by (simp add: gather_from_workers_def)
    next
      case (Inr s)
      with r show ?thesis
        by (cases "original_candidates who_has (all_bad_keys s)") (simp_all add: gather_from_workers_def)
    qed
  qed
  have p1': "fetch_connectivity_only fetch \<longrightarrow>
            (\<exists>res bad missing. gather_from_workers rnd fetch who_has = Some (Inr (res, bad, missing)))"
  proof
    assume c: "fetch_connectivity_only fetch"
    from gather_loop_no_exception[OF d c, of rnd gather_init] obtain t where
      t: "gather_loop rnd fetch ?wh gather_init = Some (Inr t)" by blast
    have I0: "set (all_bad_keys (gather_init :: ('a, 'b, 'c) gather_state)) \<subseteq> fst ` set ?wh"
      by (simp add: gather_init_def)
    have "set (all_bad_keys t) \<subseteq> fst ` set ?wh"
      using gather_loop_rule[OF d, of "\<lambda>s. set (all_bad_keys s) \<subseteq> fst ` set ?wh" rnd fetch gather_init t]
        all_bad_keys_pass[OF d] t I0 by blast
    then have "set (all_bad_keys t) \<subseteq> fst ` set who_has" using keys by simp
    from original_candidates_total[OF this] obtain bad where
      "original_candidates who_has (all_bad_keys t) = Inr bad" by blast
    with t show "\<exists>res bad missing. gather_from_workers rnd fetch who_has = Some (Inr (res, bad, missing))"
      by (simp add: gather_from_workers_def)
  qed
  have p2: "\<forall>s s' k addrs.
            gather_pass rnd fetch ?wh s = Inr s' \<longrightarrow>
            (k, addrs) \<in> set ?wh \<longrightarrow> k \<notin> fst ` set (results s) \<longrightarrow>
              k \<in> fst ` set (results s') \<or>
              (\<exists>a \<in> set (candidates addrs (bad_addresses s)). a \<in> set (bad_addresses s')) \<or>
              (candidates addrs (bad_addresses s) = [] \<and> k \<in> set (all_bad_keys s'))"
    using gather_pass_progress[OF d] by blast
  have p3: "fetch_requested_only fetch \<longrightarrow>
            (\<forall>res bad missing.
               gather_from_workers rnd fetch who_has = Some (Inr (res, bad, missing)) \<longrightarrow>
               length res + length bad = length who_has)"
  proof (intro impI allI)
    fix res bad missing
    assume r: "fetch_requested_only fetch"
      and g: "gather_from_workers rnd fetch who_has = Some (Inr (res, bad, missing))"
    from g obtain t where t: "gather_loop rnd fetch ?wh gather_init = Some (Inr t)"
      and oc: "original_candidates who_has (all_bad_keys t) = Inr bad" and res: "res = results t"
      by (auto simp: gather_from_workers_def split: option.splits sum.splits)
    have "gather_inv ?wh t \<and> \<not> length (results t) + length (all_bad_keys t) < length ?wh"
      using gather_loop_rule[OF d, of "gather_inv ?wh" rnd fetch gather_init t]
        gather_inv_pass[OF d r] gather_inv_init t by blast
    with gather_inv_exit[OF d] have e: "length (results t) + length (all_bad_keys t) = length ?wh"
      and u: "fst ` set (results t) \<union> set (all_bad_keys t) = fst ` set ?wh" by blast+
    have "set (all_bad_keys t) \<subseteq> fst ` set who_has" using u keys by blast
    from original_candidates_total[OF this] oc have "map fst bad = all_bad_keys t" by auto
    then have "length bad = length (all_bad_keys t)" by (metis length_map)
    with e res len show "length res + length bad = length who_has" by simp
  qed
  from p1 p1' p2 p3 show ?thesis by blast
qed

theorem gather_terminates_witness:
  "distinct (map fst [(''x'', [''w1'', ''w2'']), (''y'', [''w1''])]) \<and>
   fetch_requested_only fetch_w1_down \<and>
   (\<exists>r. gather_from_workers (\<lambda>i k. 0) fetch_w1_down [(''x'', [''w1'', ''w2'']), (''y'', [''w1''])] = Some r) \<and>
   gather_from_workers (\<lambda>i k. 0) fetch_w1_down [(''x'', [''w1'', ''w2'']), (''y'', [''w1''])] =
     Some (Inr ([(''x'', 0)], [(''y'', [''w1''])], [''w1''])) \<and>
   length [(''x'', 0::nat)] + length [(''y'', [''w1''])] = length [(''x'', [''w1'', ''w2'']), (''y'', [''w1''])]"
proof -
  have h: "distinct (map fst [(''x'', [''w1'', ''w2'']), (''y'', [''w1''])])" by simp
  note T = gather_terminates [OF h, of "\<lambda>i k. 0" fetch_w1_down]
  from T have t1: "\<exists>r. gather_from_workers (\<lambda>i k. 0) fetch_w1_down [(''x'', [''w1'', ''w2'']), (''y'', [''w1''])] = Some r"
    by blast
  from T fetch_w1_down_requested_only gather_w1_down
  have t3: "length [(''x'', 0::nat)] + length [(''y'', [''w1''])] = length [(''x'', [''w1'', ''w2'']), (''y'', [''w1''])]"
    by blast
  from h fetch_w1_down_requested_only t1 gather_w1_down t3 show ?thesis by (intro conjI)
qed

text \<open>
  C6. When every candidate address of a requested key raises \<^verbatim>\<open>EnvironmentError\<close> at every
  fetch, \<^verbatim>\<open>gather_from_workers\<close> does not raise: it returns, the key has no result and is in
  the unobtainable mapping with its original list of candidates, and all these addresses
  are in the list of missing workers. Fetches raise nothing but connectivity errors, and
  responses hold requested keys only.
\<close>

theorem gather_unreachable_key:
  assumes d0: "distinct (map fst who_has)"
    and c: "fetch_connectivity_only fetch"
    and r: "fetch_requested_only fetch"
    and item: "(k, addrs) \<in> set who_has"
    and fail: "\<forall>a \<in> set addrs. \<forall>i ks. fetch i a ks = Inl EnvironmentError"
  shows "\<exists>res bad missing.
           gather_from_workers rnd fetch who_has = Some (Inr (res, bad, missing)) \<and>
           k \<notin> fst ` set res \<and> map_of bad k = Some addrs \<and> set addrs \<subseteq> set missing"
proof -
  let ?wh = "copy_who_has who_has"
  have d: "distinct (map fst ?wh)" using d0 by (simp add: keys_copy_who_has)
  have keys: "fst ` set ?wh = fst ` set who_has"
    using arg_cong[OF keys_copy_who_has[of who_has], of set] by simp
  have item': "(k, remdups addrs) \<in> set ?wh" using item by (rule copy_who_has_member)
  have fail': "\<forall>a \<in> set (remdups addrs). \<forall>i ks. fetch i a ks = Inl EnvironmentError"
    using fail by simp
  from gather_loop_no_exception[OF d c, of rnd gather_init] obtain t where
    t: "gather_loop rnd fetch ?wh gather_init = Some (Inr t)" by blast
  have J0: "unreachable_inv ?wh k (remdups addrs) gather_init"
    unfolding unreachable_inv_def using gather_inv_init[of ?wh] by (simp add: gather_init_def)
  have "unreachable_inv ?wh k (remdups addrs) t \<and>
        \<not> length (results t) + length (all_bad_keys t) < length ?wh"
    using gather_loop_rule[OF d, of "unreachable_inv ?wh k (remdups addrs)" rnd fetch gather_init t]
      unreachable_inv_pass[OF d r item' fail'] J0 t by blast
  then have I: "gather_inv ?wh t" and kr: "k \<notin> fst ` set (results t)"
    and mi: "\<forall>a \<in> set addrs. a \<in> set (bad_addresses t) \<longrightarrow> a \<in> set (missing_workers t)"
    and nc: "\<not> length (results t) + length (all_bad_keys t) < length ?wh"
    unfolding unreachable_inv_def by simp_all
  from gather_inv_exit[OF d I nc] have u: "fst ` set (results t) \<union> set (all_bad_keys t) = fst ` set ?wh"
    by blast
  have "k \<in> fst ` set ?wh" using item' by force
  with u kr have kb: "k \<in> set (all_bad_keys t)" by blast
  from I item' kb have "candidates (remdups addrs) (bad_addresses t) = []"
    unfolding gather_inv_def by force
  then have "set addrs \<subseteq> set (bad_addresses t)"
    by (auto simp: candidates_def filter_empty_conv)
  with mi have m: "set addrs \<subseteq> set (missing_workers t)" by blast
  have "set (all_bad_keys t) \<subseteq> fst ` set who_has" using u keys by blast
  from original_candidates_total[OF this] obtain bad where
    b: "original_candidates who_has (all_bad_keys t) = Inr bad"
       "\<forall>k \<in> set (all_bad_keys t). map_of bad k = map_of who_has k" by blast
  have "map_of who_has k = Some addrs" using d0 item by simp
  with b(2) kb have "map_of bad k = Some addrs" by simp
  moreover have "gather_from_workers rnd fetch who_has = Some (Inr (results t, bad, missing_workers t))"
    using t b(1) by (simp add: gather_from_workers_def)
  ultimately show ?thesis using kr m by blast
qed

theorem gather_unreachable_key_witness:
  "\<exists>res bad missing.
     gather_from_workers (\<lambda>i k. 0) fetch_w1_down [(''x'', [''w1'', ''w2'']), (''y'', [''w1''])] =
       Some (Inr (res, bad, missing)) \<and>
     ''y'' \<notin> fst ` set res \<and> map_of bad ''y'' = Some [''w1''] \<and> set [''w1''] \<subseteq> set missing"
proof -
  have h1: "distinct (map fst [(''x'', [''w1'', ''w2'']), (''y'', [''w1''])])" by simp
  have h2: "(''y'', [''w1'']) \<in> set [(''x'', [''w1'', ''w2'']), (''y'', [''w1''])]" by simp
  have h3: "\<forall>a \<in> set [''w1'']. \<forall>i ks. fetch_w1_down i a ks = Inl EnvironmentError"
    by (simp add: fetch_w1_down_def)
  show ?thesis
    by (rule gather_unreachable_key [OF h1 fetch_w1_down_connectivity_only
          fetch_w1_down_requested_only h2 h3])
qed

end
